theory Spec2Isabelle
  imports Main "HOL-Library.Monad_Syntax"
begin

section \<open>The item store\<close>

text \<open>
  The embedding follows \<^verbatim>\<open>src/hash_map.h\<close>. An \<^verbatim>\<open>Item*\<close> is an optional
  address (\<open>None\<close> is \<^verbatim>\<open>nullptr\<close>); every table owns the region of the store that
  holds its items (no item is ever shared between two tables), so the store is a field
  of the table, together with the next address \<^verbatim>\<open>new\<close> hands out.
  A \<^verbatim>\<open>size_t\<close> is a natural number: the slot array holds \<open>capacity_m\<close> pointers,
  so its allocation fails long before \<open>capacity_m * 3\<close> or \<open>size_m * 4\<close> could wrap.
  Every operation returns an \<open>option\<close>: \<open>None\<close> stands for a call with no defined
  result (a loop that does not end, a null or dangling pointer that is dereferenced, an
  index outside the slot array, a division by zero).
\<close>

type_synonym addr = nat
type_synonym ptr = "addr option"

text \<open>
  The fields of \<^verbatim>\<open>Item\<close>. The sentinel is built without a key and a value, and
  \<^verbatim>\<open>pos\<close> is not initialised by the constructors: both are \<open>None\<close> until written.
  The field \<^verbatim>\<open>next\<close> is called \<open>nxt\<close>.
\<close>

record ('k, 'v) Item =
  keyValue :: "('k \<times> 'v) option"
  prev :: ptr
  nxt :: ptr
  pos :: "nat option"

type_synonym ('k, 'v) store = "addr \<Rightarrow> ('k, 'v) Item option"

record ('k, 'v) HashMap =
  size_m :: nat
  capacity_m :: nat
  hasher_m :: "'k \<Rightarrow> nat"
  begin_m :: ptr
  end_m :: ptr
  storage :: "ptr list"
  items :: "('k, 'v) store"
  fresh :: addr

text \<open>\<^verbatim>\<open>Item::connect\<close>: the neighbours are made to point at the item.\<close>

definition connect :: "addr \<Rightarrow> ('k, 'v) store \<Rightarrow> ('k, 'v) store option" where
  "connect a h = do {
     it \<leftarrow> h a;
     h1 \<leftarrow> (case nxt it of None \<Rightarrow> Some h
            | Some n \<Rightarrow> do { nit \<leftarrow> h n; Some (h(n \<mapsto> nit\<lparr>prev := Some a\<rparr>)) });
     it1 \<leftarrow> h1 a;
     (case prev it1 of None \<Rightarrow> Some h1
      | Some p \<Rightarrow> do { pit \<leftarrow> h1 p; Some (h1(p \<mapsto> pit\<lparr>nxt := Some a\<rparr>)) })
   }"

text \<open>\<^verbatim>\<open>Item::disconnect\<close>: the neighbours are made to point at each other.\<close>

definition disconnect :: "addr \<Rightarrow> ('k, 'v) store \<Rightarrow> ('k, 'v) store option" where
  "disconnect a h = do {
     it \<leftarrow> h a;
     h1 \<leftarrow> (case nxt it of None \<Rightarrow> Some h
            | Some n \<Rightarrow> do { nit \<leftarrow> h n; Some (h(n \<mapsto> nit\<lparr>prev := prev it\<rparr>)) });
     it1 \<leftarrow> h1 a;
     (case prev it1 of None \<Rightarrow> Some h1
      | Some p \<Rightarrow> do { pit \<leftarrow> h1 p; Some (h1(p \<mapsto> pit\<lparr>nxt := nxt it1\<rparr>)) })
   }"

text \<open>
  The two constructors of \<^verbatim>\<open>Item\<close> under \<^verbatim>\<open>new\<close>: the item is stored at the next
  unused address and connected.
\<close>

definition Item_new ::
  "'k \<Rightarrow> 'v \<Rightarrow> ptr \<Rightarrow> ptr \<Rightarrow> ('k, 'v) HashMap \<Rightarrow> (addr \<times> ('k, 'v) HashMap) option" where
  "Item_new key val p n t = (let a = fresh t in do {
     h \<leftarrow> connect a ((items t)(a \<mapsto> \<lparr>keyValue = Some (key, val), prev = p, nxt = n, pos = None\<rparr>));
     Some (a, t\<lparr>items := h, fresh := Suc a\<rparr>)
   })"

definition Item_sentinel ::
  "ptr \<Rightarrow> ptr \<Rightarrow> ('k, 'v) HashMap \<Rightarrow> (addr \<times> ('k, 'v) HashMap) option" where
  "Item_sentinel p n t = (let a = fresh t in do {
     h \<leftarrow> connect a ((items t)(a \<mapsto> \<lparr>keyValue = None, prev = p, nxt = n, pos = None\<rparr>));
     Some (a, t\<lparr>items := h, fresh := Suc a\<rparr>)
   })"

text \<open>\<^verbatim>\<open>delete item\<close>: the destructor disconnects the item, then its memory is released.\<close>

definition Item_delete :: "addr \<Rightarrow> ('k, 'v) store \<Rightarrow> ('k, 'v) store option" where
  "Item_delete a h = do { h1 \<leftarrow> disconnect a h; Some (h1(a := None)) }"

section \<open>The private operations of the table\<close>

text \<open>\<^verbatim>\<open>storage[i]\<close>, read and written; an index outside the vector has no defined result.\<close>

definition storage_at :: "('k, 'v) HashMap \<Rightarrow> nat \<Rightarrow> ptr option" where
  "storage_at t i = (if i < length (storage t) then Some (storage t ! i) else None)"

definition storage_set :: "('k, 'v) HashMap \<Rightarrow> nat \<Rightarrow> ptr \<Rightarrow> ('k, 'v) HashMap option" where
  "storage_set t i p =
     (if i < length (storage t) then Some (t\<lparr>storage := (storage t)[i := p]\<rparr>) else None)"

text \<open>\<^verbatim>\<open>item->keyValue.first\<close>.\<close>

definition key_of :: "('k, 'v) HashMap \<Rightarrow> addr \<Rightarrow> 'k option" where
  "key_of t a = do { it \<leftarrow> items t a; kv \<leftarrow> keyValue it; Some (fst kv) }"

text \<open>\<^verbatim>\<open>storage[i]->pos = i\<close>.\<close>

definition set_pos :: "('k, 'v) HashMap \<Rightarrow> nat \<Rightarrow> ('k, 'v) HashMap option" where
  "set_pos t i = do {
     p \<leftarrow> storage_at t i;
     a \<leftarrow> p;
     it \<leftarrow> items t a;
     Some (t\<lparr>items := (items t)(a \<mapsto> it\<lparr>pos := Some i\<rparr>)\<rparr>)
   }"

definition get_hash :: "('k, 'v) HashMap \<Rightarrow> 'k \<Rightarrow> nat option" where
  "get_hash t key = (if capacity_m t = 0 then None else Some (hasher_m t key mod capacity_m t))"

definition cyclic_inc :: "('k, 'v) HashMap \<Rightarrow> nat \<Rightarrow> nat" where
  "cyclic_inc t i = (let j = i + 1 in if j = capacity_m t then 0 else j)"

definition is_in_range :: "nat \<Rightarrow> nat \<Rightarrow> nat \<Rightarrow> bool" where
  "is_in_range i from to =
     (if from \<le> to then from \<le> i \<and> i \<le> to else i \<le> to \<or> from \<le> i)"

partial_function (option) find_pos_loop :: "('k, 'v) HashMap \<Rightarrow> 'k \<Rightarrow> nat \<Rightarrow> nat option" where
  "find_pos_loop t key i = do {
     p \<leftarrow> storage_at t i;
     (case p of None \<Rightarrow> Some i
      | Some a \<Rightarrow> do {
          k \<leftarrow> key_of t a;
          if k = key then Some i else find_pos_loop t key (cyclic_inc t i)
        })
   }"

definition find_pos :: "('k, 'v) HashMap \<Rightarrow> 'k \<Rightarrow> nat option" where
  "find_pos t key = do { hash \<leftarrow> get_hash t key; find_pos_loop t key hash }"

partial_function (option) find_next_loop :: "('k, 'v) HashMap \<Rightarrow> nat \<Rightarrow> nat \<Rightarrow> nat option" where
  "find_next_loop t ps i = do {
     p \<leftarrow> storage_at t i;
     (case p of None \<Rightarrow> Some i
      | Some a \<Rightarrow> do {
          k \<leftarrow> key_of t a;
          h \<leftarrow> get_hash t k;
          if \<not> is_in_range h (cyclic_inc t ps) i then Some i
          else find_next_loop t ps (cyclic_inc t i)
        })
   }"

definition find_next :: "('k, 'v) HashMap \<Rightarrow> nat \<Rightarrow> nat option" where
  "find_next t ps = find_next_loop t ps (cyclic_inc t ps)"

definition insert_item :: "('k, 'v) HashMap \<Rightarrow> ptr \<Rightarrow> ('k, 'v) HashMap option" where
  "insert_item t item = do {
     a \<leftarrow> item;
     k \<leftarrow> key_of t a;
     ps \<leftarrow> find_pos t k;
     p \<leftarrow> storage_at t ps;
     if p = None then do {
       t1 \<leftarrow> storage_set t ps item;
       t2 \<leftarrow> set_pos t1 ps;
       Some (t2\<lparr>size_m := size_m t2 + 1\<rparr>)
     } else Some t
   }"

definition create_item :: "('k, 'v) HashMap \<Rightarrow> 'k \<Rightarrow> 'v \<Rightarrow> (addr \<times> ('k, 'v) HashMap) option" where
  "create_item t key val = do {
     e \<leftarrow> end_m t;
     eit \<leftarrow> items t e;
     (a, t1) \<leftarrow> Item_new key val (prev eit) (end_m t) t;
     it \<leftarrow> items t1 a;
     Some (a, if prev it = None then t1\<lparr>begin_m := Some a\<rparr> else t1)
   }"

definition delete_item :: "('k, 'v) HashMap \<Rightarrow> ptr \<Rightarrow> ('k, 'v) HashMap option" where
  "delete_item t item = (case item of None \<Rightarrow> Some t
     | Some a \<Rightarrow> do {
         t1 \<leftarrow> (if item = begin_m t
                then do { b \<leftarrow> begin_m t; bit \<leftarrow> items t b; Some (t\<lparr>begin_m := nxt bit\<rparr>) }
                else Some t);
         h \<leftarrow> Item_delete a (items t1);
         Some (t1\<lparr>items := h\<rparr>)
       })"

partial_function (option) resize_loop :: "('k, 'v) HashMap \<Rightarrow> ptr \<Rightarrow> ('k, 'v) HashMap option" where
  "resize_loop t item =
     (if item = end_m t then Some t
      else do {
        t1 \<leftarrow> insert_item t item;
        a \<leftarrow> item;
        it \<leftarrow> items t1 a;
        resize_loop t1 (nxt it)
      })"

definition resize :: "nat \<Rightarrow> ('k, 'v) HashMap \<Rightarrow> ('k, 'v) HashMap option" where
  "resize newCapacity t =
     (let t1 = t\<lparr>storage := replicate newCapacity None, capacity_m := newCapacity, size_m := 0\<rparr>
      in resize_loop t1 (begin_m t1))"

definition resize_if_need :: "('k, 'v) HashMap \<Rightarrow> ('k, 'v) HashMap option" where
  "resize_if_need t =
     (if size_m t * 4 \<ge> capacity_m t * 3 then resize (capacity_m t * 2) t else Some t)"

definition init :: "('k, 'v) HashMap \<Rightarrow> ('k, 'v) HashMap option" where
  "init t = (let t1 = t\<lparr>size_m := 0, capacity_m := 1, storage := [None]\<rparr> in do {
     (e, t2) \<leftarrow> Item_sentinel None None t1;
     Some (t2\<lparr>end_m := Some e, begin_m := Some e\<rparr>)
   })"

fun delete_all_loop :: "nat list \<Rightarrow> ('k, 'v) HashMap \<Rightarrow> ('k, 'v) HashMap option" where
  "delete_all_loop [] t = Some t"
| "delete_all_loop (i # is) t = do {
     p \<leftarrow> storage_at t i;
     t1 \<leftarrow> delete_item t p;
     delete_all_loop is t1
   }"

definition delete_all :: "('k, 'v) HashMap \<Rightarrow> ('k, 'v) HashMap option" where
  "delete_all t = do {
     t1 \<leftarrow> delete_all_loop [0 ..< length (storage t)] t;
     Some (t1\<lparr>storage := [None], begin_m := end_m t1, capacity_m := 1, size_m := 0\<rparr>)
   }"

section \<open>The public operations\<close>

text \<open>
  \<^verbatim>\<open>size\<close>, \<^verbatim>\<open>empty\<close>, \<^verbatim>\<open>insert\<close> and \<^verbatim>\<open>find\<close> carry the suffix \<open>_op\<close>, and
  the members \<^verbatim>\<open>size_\<close>, \<^verbatim>\<open>capacity_\<close>, \<^verbatim>\<open>hasher_\<close>, \<^verbatim>\<open>_begin\<close>, \<^verbatim>\<open>_end\<close> the
  suffix \<open>_m\<close>.
\<close>

text \<open>
  The constructor from a hasher. A new object has no items; the fields that
  \<^verbatim>\<open>init\<close> assigns are given placeholder values before it runs.
\<close>

definition HashMap_new :: "('k \<Rightarrow> nat) \<Rightarrow> ('k, 'v) HashMap option" where
  "HashMap_new hasher =
     init \<lparr>size_m = 0, capacity_m = 0, hasher_m = hasher, begin_m = None, end_m = None,
           storage = [], items = (\<lambda>a. None), fresh = 0\<rparr>"

definition size_op :: "('k, 'v) HashMap \<Rightarrow> nat" where
  "size_op t = size_m t"

definition empty_op :: "('k, 'v) HashMap \<Rightarrow> bool" where
  "empty_op t = (size_m t = 0)"

definition hash_function :: "('k, 'v) HashMap \<Rightarrow> 'k \<Rightarrow> nat" where
  "hash_function t = hasher_m t"

definition insert_op :: "'k \<times> 'v \<Rightarrow> ('k, 'v) HashMap \<Rightarrow> ('k, 'v) HashMap option" where
  "insert_op kv t = (let key = fst kv; val = snd kv in do {
     ps \<leftarrow> find_pos t key;
     p \<leftarrow> storage_at t ps;
     if p = None then do {
       (a, t1) \<leftarrow> create_item t key val;
       t2 \<leftarrow> storage_set t1 ps (Some a);
       t3 \<leftarrow> set_pos t2 ps;
       resize_if_need (t3\<lparr>size_m := size_m t3 + 1\<rparr>)
     } else Some t
   })"

partial_function (option) erase_loop ::
  "('k, 'v) HashMap \<Rightarrow> nat \<Rightarrow> nat \<Rightarrow> ('k, 'v) HashMap option" where
  "erase_loop t ps nextPos = do {
     p \<leftarrow> storage_at t nextPos;
     if p \<noteq> None then do {
       t1 \<leftarrow> storage_set t ps p;
       t2 \<leftarrow> storage_set t1 nextPos None;
       t3 \<leftarrow> set_pos t2 ps;
       n \<leftarrow> find_next t3 nextPos;
       erase_loop t3 nextPos n
     } else Some t
   }"

definition erase :: "'k \<Rightarrow> ('k, 'v) HashMap \<Rightarrow> ('k, 'v) HashMap option" where
  "erase key t = do {
     ps \<leftarrow> find_pos t key;
     p \<leftarrow> storage_at t ps;
     if p \<noteq> None then do {
       t1 \<leftarrow> delete_item t p;
       t2 \<leftarrow> storage_set t1 ps None;
       let t3 = t2\<lparr>size_m := size_m t2 - 1\<rparr>;
       nextPos \<leftarrow> find_next t3 ps;
       t4 \<leftarrow> erase_loop t3 ps nextPos;
       resize_if_need t4
     } else Some t
   }"

text \<open>\<^verbatim>\<open>find\<close> returns the pointer an iterator holds.\<close>

definition find_op :: "'k \<Rightarrow> ('k, 'v) HashMap \<Rightarrow> ptr option" where
  "find_op key t = do {
     ps \<leftarrow> find_pos t key;
     p \<leftarrow> storage_at t ps;
     if p = None then Some (end_m t) else Some p
   }"

text \<open>
  \<^verbatim>\<open>operator[]\<close>, with \<open>dflt\<close> for \<^verbatim>\<open>ValueType()\<close>. The reference it returns is
  the address of the item whose value it denotes; \<open>deref\<close> reads through it.
\<close>

definition index_op ::
  "'v \<Rightarrow> 'k \<Rightarrow> ('k, 'v) HashMap \<Rightarrow> (addr \<times> ('k, 'v) HashMap) option" where
  "index_op dflt key t = do {
     ps \<leftarrow> find_pos t key;
     p \<leftarrow> storage_at t ps;
     (ps1, t1) \<leftarrow> (if p = None then do {
         (a, t1) \<leftarrow> create_item t key dflt;
         t2 \<leftarrow> storage_set t1 ps (Some a);
         t3 \<leftarrow> set_pos t2 ps;
         t4 \<leftarrow> resize_if_need (t3\<lparr>size_m := size_m t3 + 1\<rparr>);
         ps1 \<leftarrow> find_pos t4 key;
         Some (ps1, t4)
       } else Some (ps, t));
     p1 \<leftarrow> storage_at t1 ps1;
     a \<leftarrow> p1;
     it \<leftarrow> items t1 a;
     kv \<leftarrow> keyValue it;
     Some (a, t1)
   }"

definition deref :: "('k, 'v) HashMap \<Rightarrow> addr \<Rightarrow> 'v option" where
  "deref t a = do { it \<leftarrow> items t a; kv \<leftarrow> keyValue it; Some (snd kv) }"

text \<open>A write through a reference or a mutable iterator: only the value changes.\<close>

definition assign_value :: "addr \<Rightarrow> 'v \<Rightarrow> ('k, 'v) HashMap \<Rightarrow> ('k, 'v) HashMap option" where
  "assign_value a v t = do {
     it \<leftarrow> items t a;
     kv \<leftarrow> keyValue it;
     Some (t\<lparr>items := (items t)(a \<mapsto> it\<lparr>keyValue := Some (fst kv, v)\<rparr>)\<rparr>)
   }"

datatype exn = OutOfRange

definition at :: "'k \<Rightarrow> ('k, 'v) HashMap \<Rightarrow> (exn + 'v) option" where
  "at key t = do {
     ps \<leftarrow> find_pos t key;
     p \<leftarrow> storage_at t ps;
     (case p of None \<Rightarrow> Some (Inl OutOfRange)
      | Some a \<Rightarrow> do { it \<leftarrow> items t a; kv \<leftarrow> keyValue it; Some (Inr (snd kv)) })
   }"

partial_function (option) clear_loop :: "('k, 'v) HashMap \<Rightarrow> ptr \<Rightarrow> ('k, 'v) HashMap option" where
  "clear_loop t item =
     (if item = end_m t then Some t
      else do {
        a \<leftarrow> item;
        it \<leftarrow> items t a;
        i \<leftarrow> pos it;
        t1 \<leftarrow> storage_set t i None;
        t2 \<leftarrow> delete_item t1 item;
        clear_loop t2 (nxt it)
      })"

definition clear :: "('k, 'v) HashMap \<Rightarrow> ('k, 'v) HashMap option" where
  "clear t = do { t1 \<leftarrow> clear_loop t (begin_m t); Some (t1\<lparr>size_m := 0\<rparr>) }"

text \<open>
  The loop \<^verbatim>\<open>for (it = other.begin(); it != other.end(); ++it) insert(*it)\<close> of the
  copy constructor and of the assignment; \<open>other\<close> is only read.
\<close>

partial_function (option) insert_range ::
  "('k, 'v) HashMap \<Rightarrow> ptr \<Rightarrow> ('k, 'v) HashMap \<Rightarrow> ('k, 'v) HashMap option" where
  "insert_range other p t =
     (if p = end_m other then Some t
      else do {
        a \<leftarrow> p;
        it \<leftarrow> items other a;
        kv \<leftarrow> keyValue it;
        t1 \<leftarrow> insert_op kv t;
        insert_range other (nxt it) t1
      })"

text \<open>The constructors from a sequence of pairs (two iterators, or an initializer list).\<close>

fun insert_list :: "('k \<times> 'v) list \<Rightarrow> ('k, 'v) HashMap \<Rightarrow> ('k, 'v) HashMap option" where
  "insert_list [] t = Some t"
| "insert_list (kv # kvs) t = do { t1 \<leftarrow> insert_op kv t; insert_list kvs t1 }"

definition HashMap_from_list :: "('k \<times> 'v) list \<Rightarrow> ('k \<Rightarrow> nat) \<Rightarrow> ('k, 'v) HashMap option" where
  "HashMap_from_list initList hasher = do { t \<leftarrow> HashMap_new hasher; insert_list initList t }"

text \<open>
  The copy constructor \<^verbatim>\<open>HashMap(const HashMap& other, const Hash& hasher = Hash())\<close>;
  \<open>hasher\<close> is the second argument, \<^verbatim>\<open>Hash()\<close> when the caller gives none.
\<close>

definition HashMap_copy :: "('k, 'v) HashMap \<Rightarrow> ('k \<Rightarrow> nat) \<Rightarrow> ('k, 'v) HashMap option" where
  "HashMap_copy other hasher = do {
     t \<leftarrow> HashMap_new hasher;
     insert_range other (begin_m other) t
   }"

text \<open>
  \<^verbatim>\<open>operator=\<close>. Tables are objects at addresses of a world of tables, so that
  \<^verbatim>\<open>&other != this\<close> is a comparison of addresses.
\<close>

definition assign_from :: "('k, 'v) HashMap \<Rightarrow> ('k, 'v) HashMap \<Rightarrow> ('k, 'v) HashMap option" where
  "assign_from other t = do { t1 \<leftarrow> delete_all t; insert_range other (begin_m other) t1 }"

definition assign_op ::
  "nat \<Rightarrow> nat \<Rightarrow> (nat \<Rightarrow> ('k, 'v) HashMap option) \<Rightarrow> (nat \<Rightarrow> ('k, 'v) HashMap option) option" where
  "assign_op this other w =
     (if other \<noteq> this then do {
        t \<leftarrow> w this;
        ot \<leftarrow> w other;
        t1 \<leftarrow> assign_from ot t;
        Some (w(this \<mapsto> t1))
      } else do { t \<leftarrow> w this; Some w })"

text \<open>Iteration from \<^verbatim>\<open>begin()\<close> to \<^verbatim>\<open>end()\<close>: the pairs the iterator yields.\<close>

partial_function (option) iterate :: "('k, 'v) HashMap \<Rightarrow> ptr \<Rightarrow> ('k \<times> 'v) list option" where
  "iterate t p =
     (if p = end_m t then Some []
      else do {
        a \<leftarrow> p;
        it \<leftarrow> items t a;
        kv \<leftarrow> keyValue it;
        rest \<leftarrow> iterate t (nxt it);
        Some (kv # rest)
      })"

definition to_list :: "('k, 'v) HashMap \<Rightarrow> ('k \<times> 'v) list option" where
  "to_list t = iterate t (begin_m t)"

text \<open>The loops are executable through their recursion equations.\<close>

declare find_pos_loop.simps [code]
declare find_next_loop.simps [code]
declare resize_loop.simps [code]
declare erase_loop.simps [code]
declare clear_loop.simps [code]
declare insert_range.simps [code]
declare iterate.simps [code]

section \<open>Notions used in the verification\<close>

subsection \<open>Projections of the store\<close>

definition nxtf :: "('k, 'v) store \<Rightarrow> addr \<Rightarrow> ptr" where
  "nxtf h a = (case h a of None \<Rightarrow> None | Some it \<Rightarrow> nxt it)"

definition prvf :: "('k, 'v) store \<Rightarrow> addr \<Rightarrow> ptr" where
  "prvf h a = (case h a of None \<Rightarrow> None | Some it \<Rightarrow> prev it)"

definition kvf :: "('k, 'v) store \<Rightarrow> addr \<Rightarrow> ('k \<times> 'v) option" where
  "kvf h a = (case h a of None \<Rightarrow> None | Some it \<Rightarrow> keyValue it)"

definition posf :: "('k, 'v) store \<Rightarrow> addr \<Rightarrow> nat option" where
  "posf h a = (case h a of None \<Rightarrow> None | Some it \<Rightarrow> pos it)"

subsection \<open>Doubly linked chains\<close>

primrec path :: "(addr \<Rightarrow> ptr) \<Rightarrow> ptr \<Rightarrow> addr list \<Rightarrow> ptr \<Rightarrow> bool" where
  "path f p [] q = (p = q)"
| "path f p (a # as) q = (p = Some a \<and> path f (f a) as q)"

definition dllf :: "(addr \<Rightarrow> ptr) \<Rightarrow> (addr \<Rightarrow> ptr) \<Rightarrow> ptr \<Rightarrow> addr list \<Rightarrow> addr \<Rightarrow> bool" where
  "dllf N P b as e \<longleftrightarrow>
     distinct (as @ [e]) \<and> path N b as (Some e) \<and> N e = None \<and> path P (P e) (rev as) None"

definition chain :: "('k, 'v) HashMap \<Rightarrow> addr list \<Rightarrow> addr \<Rightarrow> bool" where
  "chain t as e \<longleftrightarrow>
     end_m t = Some e \<and> dllf (nxtf (items t)) (prvf (items t)) (begin_m t) as e
     \<and> items t e \<noteq> None \<and> (\<forall>a\<in>set as. kvf (items t) a \<noteq> None)
     \<and> (\<forall>a. items t a \<noteq> None \<longrightarrow> a < fresh t)"

subsection \<open>Cyclic positions\<close>

definition cnext :: "nat \<Rightarrow> nat \<Rightarrow> nat" where
  "cnext n i = (if Suc i = n then 0 else Suc i)"

definition cdist :: "nat \<Rightarrow> nat \<Rightarrow> nat \<Rightarrow> nat" where
  "cdist n a b = (if a \<le> b then b - a else b + n - a)"

subsection \<open>The keys in the slots\<close>

definition keyf :: "('k, 'v) store \<Rightarrow> addr \<Rightarrow> 'k option" where
  "keyf h a = map_option fst (kvf h a)"

definition slot_key :: "('k, 'v) HashMap \<Rightarrow> nat \<Rightarrow> 'k option" where
  "slot_key t i = (case storage t ! i of None \<Rightarrow> None | Some a \<Rightarrow> keyf (items t) a)"

subsection \<open>The slot array\<close>

definition slots_rel :: "('k, 'v) HashMap \<Rightarrow> addr set \<Rightarrow> bool" where
  "slots_rel t X \<longleftrightarrow>
     capacity_m t = length (storage t) \<and> 0 < capacity_m t
     \<and> (\<forall>i<length (storage t). \<forall>a. storage t ! i = Some a \<longrightarrow> a \<in> X \<and> posf (items t) a = Some i)
     \<and> (\<forall>a\<in>X. \<exists>i<length (storage t). storage t ! i = Some a)"

definition probe_hole :: "nat \<Rightarrow> ('k \<Rightarrow> nat) \<Rightarrow> (nat \<Rightarrow> 'k option) \<Rightarrow> nat set \<Rightarrow> bool" where
  "probe_hole n hf sk H \<longleftrightarrow>
     (\<forall>i<n. \<forall>j<n. \<forall>k. sk i = Some k \<longrightarrow>
        cdist n (hf k mod n) j < cdist n (hf k mod n) i \<longrightarrow> j \<notin> H \<longrightarrow> sk j \<noteq> None)"

subsection \<open>Well-formed tables\<close>

definition wft :: "('k, 'v) HashMap \<Rightarrow> addr list \<Rightarrow> addr \<Rightarrow> addr set \<Rightarrow> nat set \<Rightarrow> bool" where
  "wft t as e X H \<longleftrightarrow>
     chain t as e \<and> X \<subseteq> set as \<and> slots_rel t X \<and> inj_on (keyf (items t)) (set as)
     \<and> probe_hole (capacity_m t) (hasher_m t) (slot_key t) H \<and> size_m t = card X"

text \<open>A table \<open>t'\<close> differs from \<open>t\<close> in that the item at \<open>a\<close> has been placed in slot \<open>z\<close>.\<close>

definition placed :: "('k, 'v) HashMap \<Rightarrow> addr \<Rightarrow> nat \<Rightarrow> ('k, 'v) HashMap \<Rightarrow> bool" where
  "placed t a z t' \<longleftrightarrow>
     (\<exists>it. items t a = Some it \<and> items t' = (items t)(a \<mapsto> it\<lparr>pos := Some z\<rparr>))
     \<and> storage t' = (storage t)[z := Some a] \<and> size_m t' = size_m t + 1
     \<and> capacity_m t' = capacity_m t \<and> hasher_m t' = hasher_m t
     \<and> begin_m t' = begin_m t \<and> end_m t' = end_m t \<and> fresh t' = fresh t"

definition same_items :: "('k, 'v) HashMap \<Rightarrow> ('k, 'v) HashMap \<Rightarrow> bool" where
  "same_items t t' \<longleftrightarrow>
     nxtf (items t') = nxtf (items t) \<and> prvf (items t') = prvf (items t)
     \<and> kvf (items t') = kvf (items t) \<and> (\<forall>x. items t' x = None \<longleftrightarrow> items t x = None)
     \<and> begin_m t' = begin_m t \<and> end_m t' = end_m t \<and> fresh t' = fresh t
     \<and> hasher_m t' = hasher_m t"

subsection \<open>The invariant of the table and its contents\<close>

definition entries :: "('k, 'v) HashMap \<Rightarrow> addr list \<Rightarrow> ('k \<times> 'v) list" where
  "entries t as = map (\<lambda>a. the (kvf (items t) a)) as"

definition tinv :: "('k, 'v) HashMap \<Rightarrow> addr list \<Rightarrow> addr \<Rightarrow> bool" where
  "tinv t as e \<longleftrightarrow>
     wft t as e (set as) {} \<and> size_m t * 4 < capacity_m t * 3 \<and> (\<exists>m. capacity_m t = 2 ^ m)"

text \<open>The block of \<^verbatim>\<open>insert\<close> and \<^verbatim>\<open>operator[]\<close> that stores a new pair at \<open>ps\<close>.\<close>

definition insert_new ::
  "('k, 'v) HashMap \<Rightarrow> 'k \<Rightarrow> 'v \<Rightarrow> nat \<Rightarrow> ('k, 'v) HashMap option" where
  "insert_new t key val ps = do {
     (a, t1) \<leftarrow> create_item t key val;
     t2 \<leftarrow> storage_set t1 ps (Some a);
     t3 \<leftarrow> set_pos t2 ps;
     resize_if_need (t3\<lparr>size_m := size_m t3 + 1\<rparr>)
   }"

subsection \<open>The empty table\<close>

definition new_table :: "('k \<Rightarrow> nat) \<Rightarrow> ('k, 'v) HashMap" where
  "new_table hasher =
     \<lparr>size_m = 0, capacity_m = 1, hasher_m = hasher, begin_m = Some 0, end_m = Some 0,
      storage = [None],
      items = (\<lambda>a. None)(0 \<mapsto> \<lparr>keyValue = None, prev = None, nxt = None, pos = None\<rparr>),
      fresh = 1\<rparr>"

subsection \<open>Backward-shift deletion\<close>

definition shifted :: "('k, 'v) HashMap \<Rightarrow> nat \<Rightarrow> nat \<Rightarrow> addr \<Rightarrow> ('k, 'v) HashMap \<Rightarrow> bool" where
  "shifted t p z b t' \<longleftrightarrow>
     (\<exists>it. items t b = Some it \<and> items t' = (items t)(b \<mapsto> it\<lparr>pos := Some p\<rparr>))
     \<and> storage t' = (storage t)[p := Some b, z := None] \<and> size_m t' = size_m t
     \<and> capacity_m t' = capacity_m t \<and> hasher_m t' = hasher_m t
     \<and> begin_m t' = begin_m t \<and> end_m t' = end_m t \<and> fresh t' = fresh t"

subsection \<open>The contents of a table as a list of pairs\<close>

text \<open>
  The insertion-ordered list of pairs the spec describes: \<open>ins_spec\<close> appends a pair
  whose key is new and changes nothing otherwise, \<open>del_spec\<close> removes the pair of a key.
\<close>

definition ins_spec :: "'k \<times> 'v \<Rightarrow> ('k \<times> 'v) list \<Rightarrow> ('k \<times> 'v) list" where
  "ins_spec kv es = (if fst kv \<in> fst ` set es then es else es @ [kv])"

definition del_spec :: "'k \<Rightarrow> ('k \<times> 'v) list \<Rightarrow> ('k \<times> 'v) list" where
  "del_spec k es = filter (\<lambda>kv. fst kv \<noteq> k) es"

definition ins_all :: "('k \<times> 'v) list \<Rightarrow> ('k \<times> 'v) list \<Rightarrow> ('k \<times> 'v) list" where
  "ins_all kvs es = foldl (\<lambda>es kv. ins_spec kv es) es kvs"

definition content :: "('k, 'v) HashMap \<Rightarrow> ('k \<times> 'v) list \<Rightarrow> bool" where
  "content t es \<longleftrightarrow> (\<exists>as e. tinv t as e \<and> entries t as = es)"

subsection \<open>Reachable tables\<close>

text \<open>The tables that the constructors and the public operations produce.\<close>

inductive reachable :: "('k, 'v) HashMap \<Rightarrow> bool" where
  new: "HashMap_new hasher = Some t \<Longrightarrow> reachable t"
| from_list: "HashMap_from_list kvs hasher = Some t \<Longrightarrow> reachable t"
| copy: "reachable ot \<Longrightarrow> HashMap_copy ot hasher = Some t \<Longrightarrow> reachable t"
| assign: "reachable t \<Longrightarrow> reachable ot \<Longrightarrow> assign_from ot t = Some t' \<Longrightarrow> reachable t'"
| insert: "reachable t \<Longrightarrow> insert_op kv t = Some t' \<Longrightarrow> reachable t'"
| erase: "reachable t \<Longrightarrow> erase k t = Some t' \<Longrightarrow> reachable t'"
| index: "reachable t \<Longrightarrow> index_op dflt k t = Some (a, t') \<Longrightarrow> reachable t'"
| store: "reachable t \<Longrightarrow> assign_value a v t = Some t' \<Longrightarrow> reachable t'"
| clear: "reachable t \<Longrightarrow> clear t = Some t' \<Longrightarrow> reachable t'"

subsection \<open>Sequences of operations\<close>

datatype ('k, 'v) action = Insert 'k 'v | Erase 'k

fun apply_action :: "('k, 'v) action \<Rightarrow> ('k, 'v) HashMap \<Rightarrow> ('k, 'v) HashMap option" where
  "apply_action (Insert k v) t = insert_op (k, v) t"
| "apply_action (Erase k) t = erase k t"

fun run_actions :: "('k, 'v) action list \<Rightarrow> ('k, 'v) HashMap \<Rightarrow> ('k, 'v) HashMap option" where
  "run_actions [] t = Some t"
| "run_actions (x # xs) t = apply_action x t \<bind> run_actions xs"

text \<open>
  The order the spec describes: a pair enters at the tail when its key is first inserted,
  and leaves when its key is erased.
\<close>

fun order_spec :: "('k, 'v) action list \<Rightarrow> ('k \<times> 'v) list \<Rightarrow> ('k \<times> 'v) list" where
  "order_spec [] es = es"
| "order_spec (Insert k v # xs) es = order_spec xs (ins_spec (k, v) es)"
| "order_spec (Erase k # xs) es = order_spec xs (del_spec k es)"

text \<open>The public operations that change a table in place.\<close>

definition mutation :: "('k, 'v) HashMap \<Rightarrow> ('k, 'v) HashMap \<Rightarrow> bool" where
  "mutation t t' \<longleftrightarrow>
     (\<exists>kv. insert_op kv t = Some t') \<or> (\<exists>k. erase k t = Some t')
     \<or> (\<exists>dflt k a. index_op dflt k t = Some (a, t')) \<or> clear t = Some t'"

text \<open>
  Slot \<open>i\<close> is empty, or every slot from the home position of its key up to \<open>i\<close> is
  occupied.
\<close>

definition probe_path_ok :: "('k, 'v) HashMap \<Rightarrow> nat \<Rightarrow> bool" where
  "probe_path_ok t i =
     (case storage t ! i of None \<Rightarrow> True
      | Some a \<Rightarrow> (case key_of t a of None \<Rightarrow> False
          | Some k \<Rightarrow> (let home = hasher_m t k mod capacity_m t in
              list_all (\<lambda>m. storage t ! ((home + m) mod capacity_m t) \<noteq> None)
                [0 ..< (i + capacity_m t - home) mod capacity_m t])))"

definition contiguous :: "('k, 'v) HashMap \<Rightarrow> bool" where
  "contiguous t \<longleftrightarrow>
     length (storage t) = capacity_m t \<and> list_all (probe_path_ok t) [0 ..< capacity_m t]"

text \<open>
  The scan of \<^verbatim>\<open>find_next\<close> from the hole \<open>ps\<close> stops at slot \<open>i\<close>: the slot is empty,
  or the home position of its key is outside the cyclic range from \<open>ps + 1\<close> to \<open>i\<close>.
\<close>

definition scan_stops :: "('k, 'v) HashMap \<Rightarrow> nat \<Rightarrow> nat \<Rightarrow> bool" where
  "scan_stops t ps i =
     (case storage t ! i of None \<Rightarrow> True
      | Some a \<Rightarrow> (case key_of t a of None \<Rightarrow> False
          | Some k \<Rightarrow> \<not> is_in_range (hasher_m t k mod capacity_m t) (cyclic_inc t ps) i))"

text \<open>
  Membership in the cyclic range from \<open>from\<close> to \<open>to\<close> of an array of \<open>n\<close> slots: \<open>i\<close>
  is reached from \<open>from\<close> in at most as many steps as \<open>to\<close>.
\<close>

definition in_cyclic_range :: "nat \<Rightarrow> nat \<Rightarrow> nat \<Rightarrow> nat \<Rightarrow> bool" where
  "in_cyclic_range n i from to =
     list_ex (\<lambda>m. i = (from + m) mod n) [0 ..< Suc ((to + n - from) mod n)]"

section \<open>Projections of the store\<close>

lemma nxtf_upd [simp]: "nxtf (h(a \<mapsto> it)) = (nxtf h)(a := nxt it)"
  by (rule ext) (simp add: nxtf_def)

lemma prvf_upd [simp]: "prvf (h(a \<mapsto> it)) = (prvf h)(a := prev it)"
  by (rule ext) (simp add: prvf_def)

lemma kvf_upd [simp]: "kvf (h(a \<mapsto> it)) = (kvf h)(a := keyValue it)"
  by (rule ext) (simp add: kvf_def)

lemma posf_upd [simp]: "posf (h(a \<mapsto> it)) = (posf h)(a := pos it)"
  by (rule ext) (simp add: posf_def)

lemma nxtf_del [simp]: "nxtf (h(a := None)) = (nxtf h)(a := None)"
  by (rule ext) (simp add: nxtf_def)

lemma prvf_del [simp]: "prvf (h(a := None)) = (prvf h)(a := None)"
  by (rule ext) (simp add: prvf_def)

lemma kvf_del [simp]: "kvf (h(a := None)) = (kvf h)(a := None)"
  by (rule ext) (simp add: kvf_def)

lemma posf_del [simp]: "posf (h(a := None)) = (posf h)(a := None)"
  by (rule ext) (simp add: posf_def)

lemma proj_Some:
  "h a = Some it \<Longrightarrow> nxtf h a = nxt it"
  "h a = Some it \<Longrightarrow> prvf h a = prev it"
  "h a = Some it \<Longrightarrow> kvf h a = keyValue it"
  "h a = Some it \<Longrightarrow> posf h a = pos it"
  by (simp_all add: nxtf_def prvf_def kvf_def posf_def)

lemma kvf_SomeD: "kvf h a = Some kv \<Longrightarrow> \<exists>it. h a = Some it \<and> keyValue it = Some kv"
  by (auto simp: kvf_def split: option.splits)

text \<open>The effect of \<open>connect\<close> and \<open>disconnect\<close> on the projections.\<close>

lemma connect_tail:
  assumes e: "h e = Some eit" and a: "h a = None" and ae: "a \<noteq> e"
    and l: "\<And>l. prev eit = Some l \<Longrightarrow> l \<noteq> a \<and> l \<noteq> e \<and> h l \<noteq> None"
  shows "\<exists>h'. connect a (h(a \<mapsto> \<lparr>keyValue = kv, prev = prev eit, nxt = Some e, pos = None\<rparr>)) = Some h'
    \<and> dom h' = Set.insert a (dom h)
    \<and> kvf h' = (kvf h)(a := kv)
    \<and> posf h' = (posf h)(a := None)
    \<and> prvf h' = (prvf h)(a := prev eit, e := Some a)
    \<and> nxtf h' = (case prev eit of None \<Rightarrow> (nxtf h)(a := Some e)
                  | Some l \<Rightarrow> (nxtf h)(a := Some e, l := Some a))"
proof (cases "prev eit")
  case None
  then show ?thesis using e a ae
    by (simp add: connect_def) (auto simp: fun_eq_iff proj_Some)
next
  case (Some l)
  with l obtain lit where "h l = Some lit" "l \<noteq> a" "l \<noteq> e" by auto
  then show ?thesis using e a ae Some
    by (simp add: connect_def) (auto simp: fun_eq_iff proj_Some)
qed

lemma Item_delete_eff:
  assumes a: "h a = Some it" and n: "nxt it = Some n" "n \<noteq> a" "h n \<noteq> None"
    and l: "\<And>l. prev it = Some l \<Longrightarrow> l \<noteq> a \<and> l \<noteq> n \<and> h l \<noteq> None"
  shows "\<exists>h'. Item_delete a h = Some h'
    \<and> dom h' = dom h - {a}
    \<and> kvf h' = (kvf h)(a := None)
    \<and> posf h' = (posf h)(a := None)
    \<and> prvf h' = (prvf h)(n := prev it, a := None)
    \<and> nxtf h' = (case prev it of None \<Rightarrow> (nxtf h)(a := None)
                  | Some l \<Rightarrow> (nxtf h)(l := Some n, a := None))"
proof -
  from n obtain nit where nit: "h n = Some nit" by auto
  show ?thesis
  proof (cases "prev it")
    case None
    then show ?thesis using a n nit
      by (simp add: Item_delete_def disconnect_def) (auto simp: fun_eq_iff proj_Some)
  next
    case (Some l)
    with l obtain lit where "h l = Some lit" "l \<noteq> a" "l \<noteq> n" by auto
    then show ?thesis using a n nit Some
      by (simp add: Item_delete_def disconnect_def) (auto simp: fun_eq_iff proj_Some)
  qed
qed

section \<open>Doubly linked chains\<close>

lemma path_append [simp]:
  "path f p (xs @ ys) q = (\<exists>r. path f p xs r \<and> path f r ys q)"
  by (induction xs arbitrary: p) auto

lemma path_upd [simp]: "u \<notin> set as \<Longrightarrow> path (f(u := v)) p as q = path f p as q"
  by (induction as arbitrary: p) auto

lemma path_cong: "(\<And>a. a \<in> set as \<Longrightarrow> f a = g a) \<Longrightarrow> path f p as q = path g p as q"
  by (induction as arbitrary: p) auto

lemma dllf_snoc:
  assumes d: "dllf N P b as e" and a: "a \<notin> set as" "a \<noteq> e"
  shows "dllf (case P e of None \<Rightarrow> N(a := Some e) | Some l \<Rightarrow> N(a := Some e, l := Some a))
              (P(a := P e, e := Some a))
              (if P e = None then Some a else b) (as @ [a]) e"
proof (cases as rule: rev_cases)
  case Nil
  then show ?thesis using d a by (auto simp: dllf_def)
next
  case (snoc bs l)
  then show ?thesis using d a by (auto simp: dllf_def)
qed

lemma dllf_last:
  assumes d: "dllf N P b as e"
  shows "P e = (if as = [] then None else Some (last as))"
  using d by (cases as rule: rev_cases) (auto simp: dllf_def)

lemma dllf_begin:
  assumes d: "dllf N P b as e"
  shows "b = Some (hd (as @ [e]))"
  using d by (cases as) (auto simp: dllf_def)

lemma dllf_remove:
  assumes d: "dllf N P b as e" and a: "a \<in> set as"
  shows "\<exists>n. N a = Some n \<and> n \<noteq> a \<and> (n \<in> set as \<or> n = e)
    \<and> (\<forall>l. P a = Some l \<longrightarrow> l \<in> set as \<and> l \<noteq> a \<and> l \<noteq> n)
    \<and> (b = Some a \<longleftrightarrow> P a = None)
    \<and> dllf (case P a of None \<Rightarrow> N(a := None) | Some l \<Rightarrow> N(l := Some n, a := None))
            (P(n := P a, a := None))
            (if b = Some a then N a else b) (remove1 a as) e"
proof -
  from a obtain xs ys where as: "as = xs @ a # ys" by (auto dest: split_list)
  with d have dist: "a \<notin> set xs" "a \<notin> set ys" "e \<notin> set xs" "e \<notin> set ys" "a \<noteq> e"
    "distinct xs" "distinct ys" "set xs \<inter> set ys = {}"
    by (auto simp: dllf_def remove1_append)
  then have rm: "remove1 a as = xs @ ys" by (simp add: as remove1_append)
  have bne: "xs \<noteq> [] \<Longrightarrow> b \<noteq> Some a"
    using dllf_begin[OF d] dist(1) by (cases xs) (auto simp: as)
  show ?thesis
  proof (cases xs rule: rev_cases)
    case Nil
    note xs = this
    show ?thesis
    proof (cases ys)
      case Nil
      then show ?thesis using d dist xs as by (auto simp: dllf_def remove1_append)
    next
      case (Cons n ys')
      then show ?thesis using d dist xs as by (auto simp: dllf_def remove1_append)
    qed
  next
    case (snoc xs' l)
    note xs = this
    then have "b \<noteq> Some a" using bne by simp
    then show ?thesis
    proof (cases ys)
      case Nil
      then show ?thesis using d dist xs as \<open>b \<noteq> Some a\<close> by (auto simp: dllf_def remove1_append)
    next
      case (Cons n ys')
      then show ?thesis using d dist xs as \<open>b \<noteq> Some a\<close> by (auto simp: dllf_def remove1_append)
    qed
  qed
qed

lemma dllf_removeE:
  assumes "dllf N P b as e" and "a \<in> set as"
  obtains n where "N a = Some n" "n \<noteq> a" "n \<in> set as \<or> n = e"
    "\<forall>l. P a = Some l \<longrightarrow> l \<in> set as \<and> l \<noteq> a \<and> l \<noteq> n"
    "b = Some a \<longleftrightarrow> P a = None"
    "dllf (case P a of None \<Rightarrow> N(a := None) | Some l \<Rightarrow> N(l := Some n, a := None))
            (P(n := P a, a := None))
            (if b = Some a then N a else b) (remove1 a as) e"
  using dllf_remove[OF assms]
  apply (elim exE conjE)
  apply (rule that)
       apply assumption+
  done

lemma kvf_dom: "kvf h a \<noteq> None \<Longrightarrow> h a \<noteq> None"
  by (auto simp: kvf_def split: option.splits)

lemma chain_lt_fresh: "chain t as e \<Longrightarrow> a \<in> set as \<or> a = e \<Longrightarrow> a < fresh t"
  unfolding chain_def using kvf_dom by blast

lemma chain_item:
  "chain t as e \<Longrightarrow> a \<in> set as \<Longrightarrow> \<exists>it kv. items t a = Some it \<and> keyValue it = Some kv"
  unfolding chain_def kvf_def by (fastforce split: option.splits)

lemma chain_dom: "chain t as e \<Longrightarrow> a \<in> set as \<or> a = e \<Longrightarrow> \<exists>it. items t a = Some it"
  using chain_item[of t as e a] unfolding chain_def by auto

lemma chain_fresh:
  assumes "chain t as e"
  shows "fresh t \<notin> set as \<and> fresh t \<noteq> e \<and> items t (fresh t) = None"
proof -
  have "items t (fresh t) = None" using assms unfolding chain_def by blast
  then show ?thesis using chain_lt_fresh[OF assms, of "fresh t"] by auto
qed

lemma create_item_eff:
  assumes c: "chain t as e"
  shows "\<exists>t'. create_item t k v = Some (fresh t, t') \<and> chain t' (as @ [fresh t]) e
     \<and> storage t' = storage t \<and> size_m t' = size_m t \<and> capacity_m t' = capacity_m t
     \<and> hasher_m t' = hasher_m t \<and> fresh t' = Suc (fresh t)
     \<and> kvf (items t') = (kvf (items t))(fresh t := Some (k, v))
     \<and> posf (items t') = (posf (items t))(fresh t := None)"
proof -
  let ?h = "items t" and ?a = "fresh t"
  from c obtain eit where e: "end_m t = Some e" "?h e = Some eit" by (auto simp: chain_def)
  from c have d: "dllf (nxtf ?h) (prvf ?h) (begin_m t) as e" by (simp add: chain_def)
  from chain_fresh[OF c] have a: "?a \<notin> set as" "?a \<noteq> e" "?h ?a = None" by auto
  have pe: "prev eit = prvf ?h e" using e by (simp add: proj_Some)
  have l: "\<And>l. prev eit = Some l \<Longrightarrow> l \<noteq> ?a \<and> l \<noteq> e \<and> ?h l \<noteq> None"
  proof -
    fix l assume "prev eit = Some l"
    with dllf_last[OF d] pe have "as \<noteq> []" "l = last as" by (auto split: if_splits)
    then have "l \<in> set as" by simp
    then show "l \<noteq> ?a \<and> l \<noteq> e \<and> ?h l \<noteq> None"
      using a d chain_dom[OF c, of l] by (auto simp: dllf_def)
  qed
  from connect_tail[OF e(2) a(3) a(2) l, of "Some (k, v)"]
  obtain h' where h': "connect ?a (?h(?a \<mapsto> \<lparr>keyValue = Some (k, v), prev = prev eit, nxt = Some e, pos = None\<rparr>)) = Some h'"
    "dom h' = Set.insert ?a (dom ?h)" "kvf h' = (kvf ?h)(?a := Some (k, v))"
    "posf h' = (posf ?h)(?a := None)" "prvf h' = (prvf ?h)(?a := prev eit, e := Some ?a)"
    "nxtf h' = (case prev eit of None \<Rightarrow> (nxtf ?h)(?a := Some e)
                  | Some l \<Rightarrow> (nxtf ?h)(?a := Some e, l := Some ?a))"
    by blast
  have "?a \<in> dom h'" using h'(2) by simp
  then obtain ait where ait: "h' ?a = Some ait" by auto
  have "prvf h' ?a = prev eit" using h'(5) a(2) by simp
  then have ha: "\<exists>it. h' ?a = Some it \<and> prev it = prev eit"
    using ait by (simp add: proj_Some)
  have dom': "\<And>x. h' x \<noteq> None \<longleftrightarrow> x = ?a \<or> ?h x \<noteq> None"
    using h'(2) by (auto simp: dom_def)
  let ?t' = "(if prev eit = None then t\<lparr>items := h', fresh := Suc ?a, begin_m := Some ?a\<rparr>
              else t\<lparr>items := h', fresh := Suc ?a\<rparr>)"
  have r: "create_item t k v = Some (?a, ?t')"
  proof -
    from ha obtain it where it: "h' ?a = Some it" "prev it = prev eit" by blast
    show ?thesis using e h'(1) it
      by (cases "prev eit") (simp_all add: create_item_def Item_new_def Let_def)
  qed
  have d': "dllf (nxtf h') (prvf h') (if prev eit = None then Some ?a else begin_m t) (as @ [?a]) e"
    using dllf_snoc[OF d a(1,2)] h'(5,6) pe by simp
  have "chain ?t' (as @ [?a]) e"
  proof -
    have 1: "end_m ?t' = Some e" "items ?t' = h'" "fresh ?t' = Suc ?a"
      "begin_m ?t' = (if prev eit = None then Some ?a else begin_m t)"
      using e by auto
    have 2: "\<forall>x\<in>set (as @ [?a]). kvf h' x \<noteq> None"
      using c a h'(3) by (auto simp: chain_def)
    have 3: "\<forall>x. h' x \<noteq> None \<longrightarrow> x < Suc ?a"
      using c dom' by (auto simp: chain_def less_Suc_eq)
    have 4: "h' e \<noteq> None" using dom' e by simp
    show ?thesis unfolding chain_def 1 using d' 2 3 4 by blast
  qed
  then show ?thesis using r h' by (intro exI[of _ ?t']) auto
qed

lemma delete_item_eff:
  assumes c: "chain t as e" and a: "a \<in> set as"
  shows "\<exists>t'. delete_item t (Some a) = Some t' \<and> chain t' (remove1 a as) e
     \<and> storage t' = storage t \<and> size_m t' = size_m t \<and> capacity_m t' = capacity_m t
     \<and> hasher_m t' = hasher_m t \<and> fresh t' = fresh t
     \<and> kvf (items t') = (kvf (items t))(a := None)
     \<and> posf (items t') = (posf (items t))(a := None)"
proof -
  let ?h = "items t"
  from c have d: "dllf (nxtf ?h) (prvf ?h) (begin_m t) as e" by (simp add: chain_def)
  from chain_dom[OF c, of a] a obtain it where it: "?h a = Some it" by auto
  have dom: "\<And>x. x \<in> set as \<or> x = e \<Longrightarrow> ?h x \<noteq> None"
    using chain_dom[OF c] by auto
  from d a obtain n where n: "nxtf ?h a = Some n" "n \<noteq> a" "n \<in> set as \<or> n = e"
    "\<forall>l. prvf ?h a = Some l \<longrightarrow> l \<in> set as \<and> l \<noteq> a \<and> l \<noteq> n"
    "begin_m t = Some a \<longleftrightarrow> prvf ?h a = None"
    "dllf (case prvf ?h a of None \<Rightarrow> (nxtf ?h)(a := None) | Some l \<Rightarrow> (nxtf ?h)(l := Some n, a := None))
            ((prvf ?h)(n := prvf ?h a, a := None))
            (if begin_m t = Some a then nxtf ?h a else begin_m t) (remove1 a as) e"
    by (rule dllf_removeE)
  have pj: "nxt it = nxtf ?h a" "prev it = prvf ?h a" using it by (simp_all add: proj_Some)
  have "\<exists>h'. Item_delete a ?h = Some h'
    \<and> dom h' = dom ?h - {a}
    \<and> kvf h' = (kvf ?h)(a := None)
    \<and> posf h' = (posf ?h)(a := None)
    \<and> prvf h' = (prvf ?h)(n := prev it, a := None)
    \<and> nxtf h' = (case prev it of None \<Rightarrow> (nxtf ?h)(a := None)
                  | Some l \<Rightarrow> (nxtf ?h)(l := Some n, a := None))"
  proof (rule Item_delete_eff[where h="?h" and a=a and it=it and n=n])
    show "?h a = Some it" by (rule it)
    show "nxt it = Some n" using n(1) pj by simp
    show "n \<noteq> a" by (rule n(2))
    show "?h n \<noteq> None" using dom n(3) by blast
    show "\<And>l. prev it = Some l \<Longrightarrow> l \<noteq> a \<and> l \<noteq> n \<and> ?h l \<noteq> None"
      using n(4) dom pj by auto
  qed
  then obtain h' where h': "Item_delete a ?h = Some h'" "dom h' = dom ?h - {a}"
    "kvf h' = (kvf ?h)(a := None)" "posf h' = (posf ?h)(a := None)"
    "prvf h' = (prvf ?h)(n := prev it, a := None)"
    "nxtf h' = (case prev it of None \<Rightarrow> (nxtf ?h)(a := None)
                  | Some l \<Rightarrow> (nxtf ?h)(l := Some n, a := None))"
    by blast
  have dom': "\<And>x. h' x \<noteq> None \<longleftrightarrow> x \<noteq> a \<and> ?h x \<noteq> None"
    using h'(2) by (auto simp: dom_def)
  let ?t' = "(if begin_m t = Some a then t\<lparr>begin_m := nxt it, items := h'\<rparr> else t\<lparr>items := h'\<rparr>)"
  have r: "delete_item t (Some a) = Some ?t'"
    using it h'(1) by (cases "begin_m t = Some a") (simp_all add: delete_item_def)
  have ae: "a \<noteq> e" using d a by (auto simp: dllf_def)
  have "chain ?t' (remove1 a as) e"
  proof -
    have 1: "end_m ?t' = end_m t" "items ?t' = h'" "fresh ?t' = fresh t"
      "begin_m ?t' = (if begin_m t = Some a then nxtf ?h a else begin_m t)"
      using pj by auto
    have 2: "\<forall>x\<in>set (remove1 a as). kvf h' x \<noteq> None"
      using c d h'(3) by (auto simp: chain_def dllf_def)
    have 3: "\<forall>x. h' x \<noteq> None \<longrightarrow> x < fresh t"
      using c dom' by (auto simp: chain_def)
    have 4: "h' e \<noteq> None" using dom' ae dom by simp
    have 5: "dllf (nxtf h') (prvf h') (if begin_m t = Some a then nxtf ?h a else begin_m t) (remove1 a as) e"
      using n(6) h'(5,6) pj by simp
    have 6: "end_m t = Some e" using c by (simp add: chain_def)
    show ?thesis unfolding chain_def 1 using 2 3 4 5 6 by blast
  qed
  then show ?thesis using r h'(3,4) by (intro exI[of _ ?t']) auto
qed

section \<open>Cyclic positions\<close>

lemma cyclic_inc_cnext: "cyclic_inc t i = cnext (capacity_m t) i"
  by (simp add: cyclic_inc_def cnext_def Let_def)

lemma cnext_less: "i < n \<Longrightarrow> cnext n i < n"
  by (auto simp: cnext_def)

lemma cdist_self [simp]: "cdist n a a = 0"
  by (simp add: cdist_def)

lemma cdist_less: "a < n \<Longrightarrow> b < n \<Longrightarrow> cdist n a b < n"
  by (auto simp: cdist_def)

lemma cdist_eq_0: "a < n \<Longrightarrow> b < n \<Longrightarrow> cdist n a b = 0 \<longleftrightarrow> a = b"
  by (auto simp: cdist_def)

lemma cdist_pos: "a < n \<Longrightarrow> b < n \<Longrightarrow> a \<noteq> b \<Longrightarrow> 0 < cdist n a b"
  by (auto simp: cdist_def)

lemma cdist_cnext:
  "s < n \<Longrightarrow> z < n \<Longrightarrow> s \<noteq> z \<Longrightarrow> Suc (cdist n (cnext n s) z) = cdist n s z"
  by (auto simp: cdist_def cnext_def)

lemma cdist_cnext_mono:
  "s < n \<Longrightarrow> z < n \<Longrightarrow> j < n \<Longrightarrow> s \<noteq> z \<Longrightarrow>
   cdist n (cnext n s) j < cdist n (cnext n s) z \<Longrightarrow> cdist n s j < cdist n s z"
  by (auto simp: cdist_def cnext_def split: if_splits)

lemma cdist_mod: "a < n \<Longrightarrow> m < n \<Longrightarrow> cdist n a ((a + m) mod n) = m"
  by (auto simp: cdist_def mod_if)

lemma cdist_add: "a < n \<Longrightarrow> b < n \<Longrightarrow> (a + cdist n a b) mod n = b"
  by (auto simp: cdist_def mod_if)

lemma is_in_range_cdist:
  "i < n \<Longrightarrow> f < n \<Longrightarrow> t < n \<Longrightarrow> is_in_range i f t \<longleftrightarrow> cdist n f i \<le> cdist n f t"
  by (auto simp: is_in_range_def cdist_def)

lemma first_stop:
  assumes "z0 < n" "Q z0"
  obtains z where "z < n" "Q z" "\<forall>j<n. cdist n s j < cdist n s z \<longrightarrow> \<not> Q j"
proof -
  from ex_has_least_nat[of "\<lambda>z. z < n \<and> Q z" z0 "cdist n s"] assms
  obtain z where "z < n \<and> Q z" "\<forall>y. y < n \<and> Q y \<longrightarrow> cdist n s z \<le> cdist n s y" by blast
  then show ?thesis by (intro that[of z]) (auto simp: not_le[symmetric])
qed

section \<open>The keys in the slots\<close>

lemma key_of_keyf: "key_of t a = keyf (items t) a"
  by (cases "items t a"; cases "keyValue (the (items t a))") (auto simp: key_of_def keyf_def kvf_def)

lemma slot_key_SomeD:
  "slot_key t i = Some k \<Longrightarrow> \<exists>a. storage t ! i = Some a \<and> key_of t a = Some k"
  by (auto simp: slot_key_def key_of_keyf split: option.splits)

lemma find_pos_loop_stop:
  assumes cap: "capacity_m t = length (storage t)"
    and z: "z < length (storage t)" and s: "s < length (storage t)"
    and stop: "storage t ! z = None \<or> slot_key t z = Some key"
    and cont: "\<forall>j<length (storage t). cdist (length (storage t)) s j < cdist (length (storage t)) s z
          \<longrightarrow> (\<exists>k'. slot_key t j = Some k' \<and> k' \<noteq> key)"
  shows "find_pos_loop t key s = Some z"
  using s cont
proof (induction "cdist (length (storage t)) s z" arbitrary: s rule: less_induct)
  case less
  let ?n = "length (storage t)"
  show ?case
  proof (cases "s = z")
    case True
    then show ?thesis using stop z
      by (subst find_pos_loop.simps) (auto simp: storage_at_def dest!: slot_key_SomeD)
  next
    case False
    then have "cdist ?n s s < cdist ?n s z" using less.prems(1) z by (simp add: cdist_pos)
    with less.prems obtain k' where k': "slot_key t s = Some k'" "k' \<noteq> key" by blast
    then obtain a where a: "storage t ! s = Some a" "key_of t a = Some k'"
      by (auto dest: slot_key_SomeD)
    have step: "find_pos_loop t key s = find_pos_loop t key (cnext ?n s)"
      using a k' less.prems(1)
      by (subst find_pos_loop.simps) (simp add: storage_at_def cyclic_inc_cnext cap)
    have "find_pos_loop t key (cnext ?n s) = Some z"
    proof (rule less.hyps)
      show "cdist ?n (cnext ?n s) z < cdist ?n s z"
        using cdist_cnext[OF less.prems(1) z False] by simp
      show "cnext ?n s < ?n" using less.prems(1) by (rule cnext_less)
      show "\<forall>j<?n. cdist ?n (cnext ?n s) j < cdist ?n (cnext ?n s) z
          \<longrightarrow> (\<exists>k'. slot_key t j = Some k' \<and> k' \<noteq> key)"
        using less.prems(2) cdist_cnext_mono[OF less.prems(1) z _ False] by blast
    qed
    with step show ?thesis by simp
  qed
qed

lemma find_next_loop_stop:
  assumes cap: "capacity_m t = length (storage t)"
    and z: "z < length (storage t)" and s: "s < length (storage t)"
    and stop: "storage t ! z = None \<or>
       (\<exists>k. slot_key t z = Some k \<and> \<not> is_in_range (hasher_m t k mod length (storage t)) (cnext (length (storage t)) ps) z)"
    and cont: "\<forall>j<length (storage t). cdist (length (storage t)) s j < cdist (length (storage t)) s z
          \<longrightarrow> (\<exists>k. slot_key t j = Some k \<and> is_in_range (hasher_m t k mod length (storage t)) (cnext (length (storage t)) ps) j)"
  shows "find_next_loop t ps s = Some z"
  using s cont
proof (induction "cdist (length (storage t)) s z" arbitrary: s rule: less_induct)
  case less
  let ?n = "length (storage t)"
  have n0: "capacity_m t \<noteq> 0" using cap z by auto
  show ?case
  proof (cases "s = z")
    case True
    then show ?thesis using stop z n0
      by (subst find_next_loop.simps)
         (auto simp: storage_at_def get_hash_def cyclic_inc_cnext cap dest!: slot_key_SomeD)
  next
    case False
    then have "cdist ?n s s < cdist ?n s z" using less.prems(1) z by (simp add: cdist_pos)
    with less.prems obtain k where k: "slot_key t s = Some k"
      "is_in_range (hasher_m t k mod ?n) (cnext ?n ps) s" by blast
    then obtain a where a: "storage t ! s = Some a" "key_of t a = Some k"
      by (auto dest: slot_key_SomeD)
    have step: "find_next_loop t ps s = find_next_loop t ps (cnext ?n s)"
      using a k less.prems(1) n0
      by (subst find_next_loop.simps) (simp add: storage_at_def get_hash_def cyclic_inc_cnext cap)
    have "find_next_loop t ps (cnext ?n s) = Some z"
    proof (rule less.hyps)
      show "cdist ?n (cnext ?n s) z < cdist ?n s z"
        using cdist_cnext[OF less.prems(1) z False] by simp
      show "cnext ?n s < ?n" using less.prems(1) by (rule cnext_less)
      show "\<forall>j<?n. cdist ?n (cnext ?n s) j < cdist ?n (cnext ?n s) z
          \<longrightarrow> (\<exists>k. slot_key t j = Some k \<and> is_in_range (hasher_m t k mod ?n) (cnext ?n ps) j)"
        using less.prems(2) cdist_cnext_mono[OF less.prems(1) z _ False] by blast
    qed
    with step show ?thesis by simp
  qed
qed

section \<open>The slot array\<close>

lemma slots_rel_cap: "slots_rel t X \<Longrightarrow> capacity_m t = length (storage t) \<and> 0 < length (storage t)"
  by (auto simp: slots_rel_def)

lemma slots_rel_slot:
  "slots_rel t X \<Longrightarrow> i < length (storage t) \<Longrightarrow> storage t ! i = Some a \<Longrightarrow>
   a \<in> X \<and> posf (items t) a = Some i"
  by (auto simp: slots_rel_def)

lemma slots_rel_inj:
  "slots_rel t X \<Longrightarrow> i < length (storage t) \<Longrightarrow> j < length (storage t) \<Longrightarrow>
   storage t ! i = Some a \<Longrightarrow> storage t ! j = Some a \<Longrightarrow> i = j"
  using slots_rel_slot[of t X i a] slots_rel_slot[of t X j a] by simp

lemma slots_rel_mem:
  "slots_rel t X \<Longrightarrow> a \<in> X \<Longrightarrow> \<exists>i<length (storage t). storage t ! i = Some a"
  by (auto simp: slots_rel_def)

lemma slots_empty:
  assumes r: "slots_rel t X" and f: "finite X" and c: "card X < capacity_m t"
  shows "\<exists>z<length (storage t). storage t ! z = None"
proof (rule ccontr)
  let ?n = "length (storage t)"
  assume "\<not> ?thesis"
  then have all: "\<And>i. i < ?n \<Longrightarrow> \<exists>a. storage t ! i = Some a" by auto
  let ?f = "\<lambda>i. the (storage t ! i)"
  have "inj_on ?f {..<?n}"
  proof (rule inj_onI)
    fix i j assume ij: "i \<in> {..<?n}" "j \<in> {..<?n}" "?f i = ?f j"
    from all[of i] all[of j] ij obtain a where "storage t ! i = Some a" "storage t ! j = Some a"
      by auto
    with slots_rel_inj[OF r] ij show "i = j" by auto
  qed
  moreover have "?f ` {..<?n} \<subseteq> X"
  proof
    fix x assume "x \<in> ?f ` {..<?n}"
    then obtain i where i: "i < ?n" "x = ?f i" by auto
    with all[of i] slots_rel_slot[OF r, of i] show "x \<in> X" by auto
  qed
  ultimately have "card {..<?n} \<le> card X" using f by (rule card_inj_on_le)
  with c slots_rel_cap[OF r] show False by simp
qed

lemma slot_key_occupied:
  assumes r: "slots_rel t X" and k: "\<forall>a\<in>X. keyf (items t) a \<noteq> None"
    and i: "i < length (storage t)"
  shows "slot_key t i = None \<longleftrightarrow> storage t ! i = None"
proof (cases "storage t ! i")
  case None
  then show ?thesis by (simp add: slot_key_def)
next
  case (Some a)
  with slots_rel_slot[OF r i] k show ?thesis by (auto simp: slot_key_def)
qed

lemma slot_key_in:
  assumes r: "slots_rel t X" and i: "i < length (storage t)" and s: "slot_key t i = Some k"
  shows "\<exists>a\<in>X. storage t ! i = Some a \<and> keyf (items t) a = Some k"
  using s slots_rel_slot[OF r i] by (auto simp: slot_key_def split: option.splits)

lemma find_pos_absent:
  assumes r: "slots_rel t X" and k: "\<forall>a\<in>X. keyf (items t) a \<noteq> None"
    and ab: "\<forall>a\<in>X. keyf (items t) a \<noteq> Some key"
    and z0: "z0 < length (storage t)" "storage t ! z0 = None"
  obtains z where "z < length (storage t)" "find_pos t key = Some z" "storage t ! z = None"
    "\<forall>j<length (storage t).
       cdist (length (storage t)) (hasher_m t key mod length (storage t)) j
       < cdist (length (storage t)) (hasher_m t key mod length (storage t)) z
       \<longrightarrow> slot_key t j \<noteq> None"
proof -
  let ?n = "length (storage t)"
  let ?s = "hasher_m t key mod ?n"
  from slots_rel_cap[OF r] have cap: "capacity_m t = ?n" "0 < ?n" by auto
  then have s: "?s < ?n" by simp
  from first_stop[of z0 ?n "\<lambda>z. storage t ! z = None" ?s] z0
  obtain z where z: "z < ?n" "storage t ! z = None"
    "\<forall>j<?n. cdist ?n ?s j < cdist ?n ?s z \<longrightarrow> storage t ! j \<noteq> None" by blast
  have cont: "\<forall>j<?n. cdist ?n ?s j < cdist ?n ?s z \<longrightarrow> (\<exists>k'. slot_key t j = Some k' \<and> k' \<noteq> key)"
  proof (intro allI impI)
    fix j assume j: "j < ?n" "cdist ?n ?s j < cdist ?n ?s z"
    with z(3) have "storage t ! j \<noteq> None" by blast
    with slot_key_occupied[OF r k j(1)] obtain k' where k': "slot_key t j = Some k'" by auto
    from slot_key_in[OF r j(1) k'] ab have "k' \<noteq> key" by auto
    with k' show "\<exists>k'. slot_key t j = Some k' \<and> k' \<noteq> key" by blast
  qed
  have "find_pos_loop t key ?s = Some z"
    using cap(1) z(1) s _ cont by (rule find_pos_loop_stop) (simp add: z(2))
  then have fp: "find_pos t key = Some z" using cap by (simp add: find_pos_def get_hash_def)
  have "\<forall>j<?n. cdist ?n ?s j < cdist ?n ?s z \<longrightarrow> slot_key t j \<noteq> None"
    using cont by fastforce
  with z fp show ?thesis by (intro that[of z])
qed

lemma find_pos_present:
  assumes r: "slots_rel t X" and inj: "inj_on (keyf (items t)) X"
    and p: "probe_hole (capacity_m t) (hasher_m t) (slot_key t) {}"
    and a: "a \<in> X" "keyf (items t) a = Some key"
  obtains z where "z < length (storage t)" "find_pos t key = Some z" "storage t ! z = Some a"
proof -
  let ?n = "length (storage t)"
  let ?s = "hasher_m t key mod ?n"
  from slots_rel_cap[OF r] have cap: "capacity_m t = ?n" "0 < ?n" by auto
  then have s: "?s < ?n" by simp
  from slots_rel_mem[OF r a(1)] obtain z where z: "z < ?n" "storage t ! z = Some a" by blast
  then have sk: "slot_key t z = Some key" using a(2) by (simp add: slot_key_def)
  have cont: "\<forall>j<?n. cdist ?n ?s j < cdist ?n ?s z \<longrightarrow> (\<exists>k'. slot_key t j = Some k' \<and> k' \<noteq> key)"
  proof (intro allI impI)
    fix j assume j: "j < ?n" "cdist ?n ?s j < cdist ?n ?s z"
    with p sk z(1) have "slot_key t j \<noteq> None" unfolding probe_hole_def cap by blast
    then obtain k' where k': "slot_key t j = Some k'" by auto
    from slot_key_in[OF r j(1) k'] obtain b where b: "b \<in> X" "storage t ! j = Some b"
      "keyf (items t) b = Some k'" by blast
    have "j \<noteq> z" using j(2) by auto
    with slots_rel_inj[OF r j(1) z(1) b(2)] z(2) have "b \<noteq> a" by auto
    with inj_onD[OF inj, of b a] a b have "k' \<noteq> key" by auto
    with k' show "\<exists>k'. slot_key t j = Some k' \<and> k' \<noteq> key" by blast
  qed
  have "find_pos_loop t key ?s = Some z"
    using cap(1) z(1) s _ cont by (rule find_pos_loop_stop) (simp add: sk)
  then have "find_pos t key = Some z" using cap by (simp add: find_pos_def get_hash_def)
  with z show ?thesis by (intro that[of z])
qed

section \<open>Well-formed tables\<close>

lemma keyf_upd [simp]: "keyf (h(a \<mapsto> it)) = (keyf h)(a := map_option fst (keyValue it))"
  by (rule ext) (simp add: keyf_def)

lemma keyf_del [simp]: "keyf (h(a := None)) = (keyf h)(a := None)"
  by (rule ext) (simp add: keyf_def)

lemma chain_keyf: "chain t as e \<Longrightarrow> a \<in> set as \<Longrightarrow> keyf (items t) a \<noteq> None"
  by (auto simp: chain_def keyf_def)

lemma upd_pos_proj:
  assumes "h a = Some it"
  shows "nxtf (h(a \<mapsto> it\<lparr>pos := p\<rparr>)) = nxtf h" "prvf (h(a \<mapsto> it\<lparr>pos := p\<rparr>)) = prvf h"
    "kvf (h(a \<mapsto> it\<lparr>pos := p\<rparr>)) = kvf h" "keyf (h(a \<mapsto> it\<lparr>pos := p\<rparr>)) = keyf h"
    "posf (h(a \<mapsto> it\<lparr>pos := p\<rparr>)) = (posf h)(a := p)"
    "(h(a \<mapsto> it\<lparr>pos := p\<rparr>)) x \<noteq> None \<longleftrightarrow> h x \<noteq> None"
  using assms by (auto simp: fun_eq_iff proj_Some keyf_def)

text \<open>
  \<open>chain\<close> depends on the links, on which addresses are allocated and hold a pair, and on
  the control fields only.
\<close>

lemma chain_frame:
  assumes c: "chain t as e"
    and f: "begin_m t' = begin_m t" "end_m t' = end_m t" "fresh t' = fresh t"
      "nxtf (items t') = nxtf (items t)" "prvf (items t') = prvf (items t)"
      "\<And>x. items t' x \<noteq> None \<longleftrightarrow> items t x \<noteq> None"
      "\<And>x. x \<in> set as \<Longrightarrow> kvf (items t') x \<noteq> None"
  shows "chain t' as e"
  using c unfolding chain_def f(1-5) using f(6,7) by blast

lemma placed_proj:
  assumes "placed t a z t'"
  shows "nxtf (items t') = nxtf (items t)" "prvf (items t') = prvf (items t)"
    "kvf (items t') = kvf (items t)" "keyf (items t') = keyf (items t)"
    "posf (items t') = (posf (items t))(a := Some z)"
    "\<And>x. items t' x \<noteq> None \<longleftrightarrow> items t x \<noteq> None"
proof -
  from assms obtain it where it: "items t a = Some it"
    "items t' = (items t)(a \<mapsto> it\<lparr>pos := Some z\<rparr>)"
    unfolding placed_def by blast
  note u = upd_pos_proj[where h="items t" and a=a and it=it and p="Some z", OF it(1), folded it(2)]
  show "nxtf (items t') = nxtf (items t)" "prvf (items t') = prvf (items t)"
    "kvf (items t') = kvf (items t)" "keyf (items t') = keyf (items t)"
    "posf (items t') = (posf (items t))(a := Some z)"
    "\<And>x. items t' x \<noteq> None \<longleftrightarrow> items t x \<noteq> None"
    using u by auto
qed

lemma placed_slot_key:
  assumes p: "placed t a z t'" and z: "z < length (storage t)"
    and i: "i < length (storage t)"
  shows "slot_key t' i = (if i = z then keyf (items t) a else slot_key t i)"
proof -
  have "storage t' = (storage t)[z := Some a]" using p by (simp add: placed_def)
  then show ?thesis using z i placed_proj(4)[OF p]
    by (auto simp: slot_key_def split: option.splits)
qed

lemma place_wf:
  assumes w: "wft t as e X {}" and a: "a \<in> set as" "a \<notin> X"
    and z: "z < length (storage t)" "storage t ! z = None"
    and k: "keyf (items t) a = Some k"
    and pth: "\<forall>j<length (storage t).
       cdist (length (storage t)) (hasher_m t k mod length (storage t)) j
       < cdist (length (storage t)) (hasher_m t k mod length (storage t)) z
       \<longrightarrow> slot_key t j \<noteq> None"
    and p: "placed t a z t'"
  shows "wft t' as e (Set.insert a X) {}"
proof -
  let ?n = "length (storage t)"
  from w have c: "chain t as e" and X: "X \<subseteq> set as" and r: "slots_rel t X"
    and inj: "inj_on (keyf (items t)) (set as)"
    and ph: "probe_hole (capacity_m t) (hasher_m t) (slot_key t) {}"
    and sz: "size_m t = card X" by (auto simp: wft_def)
  from p have st: "storage t' = (storage t)[z := Some a]" and f: "size_m t' = size_m t + 1"
    "capacity_m t' = capacity_m t" "hasher_m t' = hasher_m t"
    "begin_m t' = begin_m t" "end_m t' = end_m t" "fresh t' = fresh t"
    by (auto simp: placed_def)
  note pj = placed_proj[OF p]
  from slots_rel_cap[OF r] have cap: "capacity_m t = ?n" "0 < ?n" by auto
  have c': "chain t' as e"
    using c f(4-6) pj(1,2,6) by (rule chain_frame) (use c pj(3) in \<open>auto simp: chain_def\<close>)
  have r': "slots_rel t' (Set.insert a X)"
    unfolding slots_rel_def
  proof (intro conjI allI impI ballI)
    show "capacity_m t' = length (storage t')" using cap f st by simp
    show "0 < capacity_m t'" using cap f by simp
  next
    fix i b assume ib: "i < length (storage t')" "storage t' ! i = Some b"
    show "b \<in> Set.insert a X"
      using ib st z slots_rel_slot[OF r, of i b] by (cases "i = z") auto
    show "posf (items t') b = Some i"
      using ib st z slots_rel_slot[OF r, of i b] a(2) pj(5) by (cases "i = z") auto
  next
    fix b assume b: "b \<in> Set.insert a X"
    show "\<exists>i<length (storage t'). storage t' ! i = Some b"
    proof (cases "b = a")
      case True
      then show ?thesis using st z by (intro exI[of _ z]) simp
    next
      case False
      with b slots_rel_mem[OF r, of b] obtain i where i: "i < ?n" "storage t ! i = Some b" by auto
      with z have "i \<noteq> z" by auto
      with i show ?thesis using st by (intro exI[of _ i]) simp
    qed
  qed
  have inj': "inj_on (keyf (items t')) (set as)" using inj pj(4) by simp
  have ph': "probe_hole (capacity_m t') (hasher_m t') (slot_key t') {}"
    unfolding probe_hole_def f cap
  proof (intro allI impI)
    fix i j k'
    assume ij: "i < ?n" "j < ?n" and sk: "slot_key t' i = Some k'"
      and d: "cdist ?n (hasher_m t k' mod ?n) j < cdist ?n (hasher_m t k' mod ?n) i"
    have "slot_key t j \<noteq> None \<or> j = z"
    proof (cases "i = z")
      case True
      then have "k' = k" using sk placed_slot_key[OF p z(1) ij(1)] k by simp
      with pth ij d True show ?thesis by blast
    next
      case False
      then have "slot_key t i = Some k'" using sk placed_slot_key[OF p z(1) ij(1)] by simp
      with ph ij d show ?thesis unfolding probe_hole_def cap by blast
    qed
    then show "slot_key t' j \<noteq> None"
      using placed_slot_key[OF p z(1) ij(2)] k by auto
  qed
  have "finite X" using X by (rule finite_subset) simp
  then have sz': "size_m t' = card (Set.insert a X)" using sz f a(2) by simp
  show ?thesis unfolding wft_def using c' X a(1) r' inj' ph' sz' by simp
qed

lemma same_items_refl [simp]: "same_items t t"
  by (simp add: same_items_def)

lemma same_items_trans: "same_items t t1 \<Longrightarrow> same_items t1 t2 \<Longrightarrow> same_items t t2"
  by (simp add: same_items_def)

lemma placed_same_items:
  assumes p: "placed t a z t'"
  shows "same_items t t'"
proof -
  have "\<forall>x. items t' x = None \<longleftrightarrow> items t x = None" using placed_proj(6)[OF p] by blast
  then show ?thesis using placed_proj(1-3)[OF p] p unfolding same_items_def placed_def by blast
qed

lemma same_items_keyf: "same_items t t' \<Longrightarrow> keyf (items t') = keyf (items t)"
  by (rule ext) (simp add: same_items_def keyf_def)

lemma same_items_chain: "same_items t t' \<Longrightarrow> chain t as e \<Longrightarrow> chain t' as e"
  unfolding same_items_def chain_def by simp

lemma slots_rel_frame:
  assumes r: "slots_rel t X" and f: "storage t' = storage t" "capacity_m t' = capacity_m t"
    "\<And>a. a \<in> X \<Longrightarrow> posf (items t') a = posf (items t) a"
  shows "slots_rel t' X"
  using r unfolding slots_rel_def f(1,2) using f(3) by auto

lemma slot_key_frame:
  assumes r: "slots_rel t X" and f: "storage t' = storage t"
    "\<And>a. a \<in> X \<Longrightarrow> keyf (items t') a = keyf (items t) a" and i: "i < length (storage t)"
  shows "slot_key t' i = slot_key t i"
  using slots_rel_slot[OF r i] f by (auto simp: slot_key_def split: option.splits)

lemma probe_hole_cong:
  assumes "\<And>i. i < n \<Longrightarrow> sk' i = sk i"
  shows "probe_hole n hf sk' H = probe_hole n hf sk H"
  using assms unfolding probe_hole_def by auto

lemma wft_key:
  assumes w: "wft t as e X H" and a: "a \<in> set as"
  obtains it kv where "items t a = Some it" "keyValue it = Some kv"
    "keyf (items t) a = Some (fst kv)" "key_of t a = Some (fst kv)"
proof -
  from w have c: "chain t as e" by (simp add: wft_def)
  from chain_item[OF c a] obtain it kv where "items t a = Some it" "keyValue it = Some kv" by blast
  then show ?thesis
    by (intro that[of it kv]) (simp_all add: key_of_keyf keyf_def kvf_def)
qed

lemma wft_absent:
  assumes w: "wft t as e X H" and a: "a \<in> set as" "a \<notin> X" and k: "keyf (items t) a = Some k"
  shows "\<forall>b\<in>X. keyf (items t) b \<noteq> Some k"
proof
  fix b assume b: "b \<in> X"
  from w have inj: "inj_on (keyf (items t)) (set as)" and X: "X \<subseteq> set as" by (auto simp: wft_def)
  from b X a inj_onD[OF inj, of b a] k show "keyf (items t) b \<noteq> Some k" by auto
qed

lemma wft_keys:
  assumes w: "wft t as e X H"
  shows "\<forall>a\<in>X. keyf (items t) a \<noteq> None"
proof
  fix a assume "a \<in> X"
  with w have "chain t as e" "a \<in> set as" by (auto simp: wft_def)
  then show "keyf (items t) a \<noteq> None" by (rule chain_keyf)
qed

lemma wft_empty_slot:
  assumes w: "wft t as e X H" and c: "card X < capacity_m t"
  shows "\<exists>z<length (storage t). storage t ! z = None"
proof -
  from w have r: "slots_rel t X" and X: "X \<subseteq> set as" by (auto simp: wft_def)
  have "finite X" using X by (rule finite_subset) simp
  with r c show ?thesis by (intro slots_empty)
qed

text \<open>The steps \<^verbatim>\<open>storage[pos] = item; storage[pos]->pos = pos; ++size_\<close>.\<close>

lemma place_steps:
  assumes z: "z < length (storage t)" and it: "items t a = Some it"
  shows "\<exists>t'. (storage_set t z (Some a) \<bind> (\<lambda>t1. set_pos t1 z \<bind>
           (\<lambda>t2. Some (t2\<lparr>size_m := size_m t2 + 1\<rparr>)))) = Some t' \<and> placed t a z t'"
  using z it by (simp add: storage_set_def set_pos_def storage_at_def placed_def)

lemma insert_item_eff:
  assumes w: "wft t as e X {}" and a: "a \<in> set as" "a \<notin> X" and c: "card X < capacity_m t"
  shows "\<exists>t'. insert_item t (Some a) = Some t' \<and> wft t' as e (Set.insert a X) {}
     \<and> same_items t t' \<and> capacity_m t' = capacity_m t"
proof -
  from wft_key[OF w a(1)] obtain it kv where it: "items t a = Some it" "keyValue it = Some kv"
    "keyf (items t) a = Some (fst kv)" "key_of t a = Some (fst kv)" by blast
  from w have r: "slots_rel t X" by (simp add: wft_def)
  from wft_empty_slot[OF w c] obtain z0 where z0: "z0 < length (storage t)" "storage t ! z0 = None"
    by blast
  from find_pos_absent[OF r wft_keys[OF w] wft_absent[OF w a it(3)] z0]
  obtain z where z: "z < length (storage t)" "find_pos t (fst kv) = Some z" "storage t ! z = None"
    "\<forall>j<length (storage t).
       cdist (length (storage t)) (hasher_m t (fst kv) mod length (storage t)) j
       < cdist (length (storage t)) (hasher_m t (fst kv) mod length (storage t)) z
       \<longrightarrow> slot_key t j \<noteq> None" by blast
  from place_steps[OF z(1) it(1)] obtain t' where
    t': "(storage_set t z (Some a) \<bind> (\<lambda>t1. set_pos t1 z \<bind>
           (\<lambda>t2. Some (t2\<lparr>size_m := size_m t2 + 1\<rparr>)))) = Some t'" "placed t a z t'" by blast
  have "insert_item t (Some a) = Some t'"
    using it(4) z(1-3) t'(1) by (simp add: insert_item_def storage_at_def)
  moreover have "wft t' as e (Set.insert a X) {}"
    using w a z(1,3) it(3) z(4) t'(2) by (rule place_wf)
  moreover have "capacity_m t' = capacity_m t" using t'(2) by (simp add: placed_def)
  ultimately show ?thesis using placed_same_items[OF t'(2)]
    by (intro exI[of _ t']) simp
qed

lemma chain_next:
  assumes c: "chain t as e" and as: "as = xs @ a # ys"
  shows "nxtf (items t) a = Some (hd (ys @ [e]))"
  using c unfolding chain_def dllf_def as by (cases ys) auto

lemma resize_loop_eff:
  assumes w: "wft t as e (set xs) {}" and as: "as = xs @ ys" and c: "length as < capacity_m t"
  shows "\<exists>t'. resize_loop t (Some (hd (ys @ [e]))) = Some t' \<and> wft t' as e (set as) {}
     \<and> same_items t t' \<and> capacity_m t' = capacity_m t"
  using w as c
proof (induction ys arbitrary: t xs)
  case Nil
  then have "end_m t = Some e" by (simp add: wft_def chain_def)
  then show ?case using Nil by (subst resize_loop.simps) simp
next
  case (Cons a ys)
  from Cons.prems have ch: "chain t as e" by (simp add: wft_def)
  then have e: "end_m t = Some e" and d: "distinct (as @ [e])" by (auto simp: chain_def dllf_def)
  from d Cons.prems(2) have a: "a \<in> set as" "a \<notin> set xs" "a \<noteq> e" by auto
  have "card (set xs) \<le> length as" using Cons.prems(2) card_length[of xs] by simp
  then have cx: "card (set xs) < capacity_m t" using Cons.prems(3) by simp
  from insert_item_eff[OF Cons.prems(1) a(1,2) cx] obtain t1 where
    t1: "insert_item t (Some a) = Some t1" "wft t1 as e (Set.insert a (set xs)) {}"
    "same_items t t1" "capacity_m t1 = capacity_m t" by blast
  from wft_key[OF t1(2) a(1)] obtain it where it: "items t1 a = Some it" by blast
  have ch1: "chain t1 as e" using t1(2) by (simp add: wft_def)
  have "nxtf (items t1) a = Some (hd (ys @ [e]))"
    using ch1 Cons.prems(2) by (rule chain_next)
  then have nx: "nxt it = Some (hd (ys @ [e]))" using it by (simp add: proj_Some)
  have "wft t1 as e (set (xs @ [a])) {}" using t1(2) by simp
  moreover have "as = (xs @ [a]) @ ys" using Cons.prems(2) by simp
  moreover have "length as < capacity_m t1" using Cons.prems(3) t1(4) by simp
  ultimately obtain t' where
    t': "resize_loop t1 (Some (hd (ys @ [e]))) = Some t'" "wft t' as e (set as) {}"
    "same_items t1 t'" "capacity_m t' = capacity_m t1" using Cons.IH by blast
  have "resize_loop t (Some (hd ((a # ys) @ [e]))) = Some t'"
    using e a(3) t1(1) it nx t'(1) by (subst resize_loop.simps) simp
  then show ?case using t'(2,4) t1(4) same_items_trans[OF t1(3) t'(3)]
    by (intro exI[of _ t']) simp
qed

lemma resize_eff:
  assumes ch: "chain t as e" and inj: "inj_on (keyf (items t)) (set as)"
    and n: "length as < n"
  shows "\<exists>t'. resize n t = Some t' \<and> wft t' as e (set as) {}
     \<and> same_items t t' \<and> capacity_m t' = n"
proof -
  let ?t1 = "t\<lparr>storage := replicate n None, capacity_m := n, size_m := 0\<rparr>"
  have s: "same_items t ?t1" by (simp add: same_items_def)
  have "wft ?t1 as e (set []) {}"
    unfolding wft_def
  proof (intro conjI)
    show "chain ?t1 as e" using s ch by (rule same_items_chain)
    show "slots_rel ?t1 (set [])" using n by (simp add: slots_rel_def)
    show "inj_on (keyf (items ?t1)) (set as)" using inj by simp
    show "probe_hole (capacity_m ?t1) (hasher_m ?t1) (slot_key ?t1) {}"
      by (simp add: probe_hole_def slot_key_def)
  qed simp_all
  moreover have "length as < capacity_m ?t1" using n by simp
  ultimately obtain t' where t': "resize_loop ?t1 (Some (hd (as @ [e]))) = Some t'"
    "wft t' as e (set as) {}" "same_items ?t1 t'" "capacity_m t' = capacity_m ?t1"
    using resize_loop_eff[of ?t1 as e "[]" as] by auto
  have "begin_m t = Some (hd (as @ [e]))" using ch dllf_begin by (auto simp: chain_def)
  then have "resize n t = Some t'" using t'(1) by (simp add: resize_def Let_def)
  then show ?thesis using t'(2,4) same_items_trans[OF s t'(3)] by simp
qed

section \<open>The invariant of the table and its contents\<close>

lemma chain_distinct: "chain t as e \<Longrightarrow> distinct as \<and> e \<notin> set as"
  by (auto simp: chain_def dllf_def)

lemma wft_size: "wft t as e (set as) H \<Longrightarrow> size_m t = length as"
  using chain_distinct[of t as e] by (simp add: wft_def distinct_card)

lemma entries_key:
  assumes c: "chain t as e" and a: "a \<in> set as"
  shows "keyf (items t) a = Some (fst (the (kvf (items t) a)))"
  using chain_keyf[OF c a] by (auto simp: keyf_def)

lemma keys_entries:
  assumes c: "chain t as e"
  shows "k \<in> fst ` set (entries t as) \<longleftrightarrow> (\<exists>a\<in>set as. keyf (items t) a = Some k)"
proof
  assume "k \<in> fst ` set (entries t as)"
  then obtain a where a: "a \<in> set as" "k = fst (the (kvf (items t) a))"
    by (auto simp: entries_def)
  with entries_key[OF c a(1)] show "\<exists>a\<in>set as. keyf (items t) a = Some k" by auto
next
  assume "\<exists>a\<in>set as. keyf (items t) a = Some k"
  then obtain a where a: "a \<in> set as" "keyf (items t) a = Some k" by blast
  with entries_key[OF c a(1)] have "k = fst (the (kvf (items t) a))" by simp
  with a(1) show "k \<in> fst ` set (entries t as)" by (auto simp: entries_def)
qed

lemma iterate_chain:
  assumes c: "chain t as e" and as: "as = xs @ ys"
  shows "iterate t (Some (hd (ys @ [e]))) = Some (entries t ys)"
  using as
proof (induction ys arbitrary: xs)
  case Nil
  have "end_m t = Some e" using c by (simp add: chain_def)
  then show ?case by (subst iterate.simps) (simp add: entries_def)
next
  case (Cons a ys)
  have e: "end_m t = Some e" using c by (simp add: chain_def)
  from chain_distinct[OF c] Cons.prems have a: "a \<in> set as" "a \<noteq> e" by auto
  from chain_item[OF c a(1)] obtain it kv where it: "items t a = Some it" "keyValue it = Some kv"
    by blast
  have "nxtf (items t) a = Some (hd (ys @ [e]))" using c Cons.prems by (rule chain_next)
  then have nx: "nxt it = Some (hd (ys @ [e]))" using it by (simp add: proj_Some)
  have "as = (xs @ [a]) @ ys" using Cons.prems by simp
  then have ih: "iterate t (Some (hd (ys @ [e]))) = Some (entries t ys)" by (rule Cons.IH)
  have "kvf (items t) a = Some kv" using it by (simp add: proj_Some)
  then show ?case using e a(2) it nx ih
    by (subst iterate.simps) (simp add: entries_def)
qed

lemma chain_begin: "chain t as e \<Longrightarrow> begin_m t = Some (hd (as @ [e]))"
  unfolding chain_def using dllf_begin by blast

lemma to_list_chain:
  assumes c: "chain t as e"
  shows "to_list t = Some (entries t as)"
  using iterate_chain[OF c, of "[]" as] chain_begin[OF c] by (simp add: to_list_def)

lemma resize_if_need_eff:
  assumes w: "wft t as e (set as) {}" and p2: "\<exists>m. capacity_m t = 2 ^ m"
    and l: "size_m t * 4 < capacity_m t * 3 + 4"
  shows "\<exists>t'. resize_if_need t = Some t' \<and> tinv t' as e \<and> same_items t t'
     \<and> capacity_m t' = (if size_m t * 4 \<ge> capacity_m t * 3 then 2 * capacity_m t else capacity_m t)
     \<and> size_m t' = size_m t"
proof (cases "size_m t * 4 \<ge> capacity_m t * 3")
  case False
  then show ?thesis using w p2 by (simp add: resize_if_need_def tinv_def)
next
  case True
  from p2 obtain m where m: "capacity_m t = 2 ^ m" by blast
  then have c1: "1 \<le> capacity_m t" by simp
  have sz: "size_m t = length as" using w by (rule wft_size)
  from w have ch: "chain t as e" and inj: "inj_on (keyf (items t)) (set as)"
    by (auto simp: wft_def)
  have "length as < capacity_m t * 2" using l c1 sz by linarith
  from resize_eff[OF ch inj this] obtain t' where t': "resize (capacity_m t * 2) t = Some t'"
    "wft t' as e (set as) {}" "same_items t t'" "capacity_m t' = capacity_m t * 2" by blast
  have sz': "size_m t' = length as" using t'(2) by (rule wft_size)
  have "size_m t' * 4 < capacity_m t' * 3"
  proof (cases "capacity_m t = 1")
    case True
    then show ?thesis using l sz sz' t'(4) by presburger
  next
    case False
    then have "2 \<le> capacity_m t" using c1 by simp
    then show ?thesis using l sz sz' t'(4) by linarith
  qed
  moreover have "capacity_m t' = 2 ^ Suc m" using t'(4) m by simp
  ultimately have "tinv t' as e" using t'(2) unfolding tinv_def by blast
  then show ?thesis using True t' sz sz' by (simp add: resize_if_need_def)
qed

lemma place_steps_bind:
  assumes z: "z < length (storage t)" and it: "items t a = Some it"
  shows "\<exists>t'. placed t a z t' \<and> (storage_set t z (Some a) \<bind> (\<lambda>t1. set_pos t1 z \<bind>
           (\<lambda>t2. F (t2\<lparr>size_m := size_m t2 + 1\<rparr>)))) = F t'"
  using z it
  by (intro exI[of _ "t\<lparr>storage := (storage t)[z := Some a],
        items := (items t)(a \<mapsto> it\<lparr>pos := Some z\<rparr>), size_m := Suc (size_m t)\<rparr>"])
     (simp add: storage_set_def set_pos_def storage_at_def placed_def)

lemma insert_new_eff:
  assumes inv: "tinv t as e" and ab: "k \<notin> fst ` set (entries t as)"
    and z: "z < length (storage t)" "storage t ! z = None"
    and pth: "\<forall>j<length (storage t).
       cdist (length (storage t)) (hasher_m t k mod length (storage t)) j
       < cdist (length (storage t)) (hasher_m t k mod length (storage t)) z
       \<longrightarrow> slot_key t j \<noteq> None"
  shows "\<exists>t'. insert_new t k v z = Some t' \<and> tinv t' (as @ [fresh t]) e
     \<and> entries t' (as @ [fresh t]) = entries t as @ [(k, v)]
     \<and> hasher_m t' = hasher_m t \<and> size_m t' = size_m t + 1 \<and> fresh t' = Suc (fresh t)
     \<and> capacity_m t' = (if (size_m t + 1) * 4 \<ge> capacity_m t * 3
                         then 2 * capacity_m t else capacity_m t)"
proof -
  let ?a = "fresh t" and ?n = "length (storage t)"
  from inv have w: "wft t as e (set as) {}" and ld: "size_m t * 4 < capacity_m t * 3"
    and p2: "\<exists>m. capacity_m t = 2 ^ m" by (auto simp: tinv_def)
  from w have ch: "chain t as e" and r: "slots_rel t (set as)"
    and inj: "inj_on (keyf (items t)) (set as)"
    and ph: "probe_hole (capacity_m t) (hasher_m t) (slot_key t) {}"
    and sz: "size_m t = card (set as)" by (auto simp: wft_def)
  from chain_fresh[OF ch] have a: "?a \<notin> set as" "?a \<noteq> e" by auto
  from create_item_eff[OF ch, of k v] obtain t1 where
    t1: "create_item t k v = Some (?a, t1)" "chain t1 (as @ [?a]) e"
    "storage t1 = storage t" "size_m t1 = size_m t" "capacity_m t1 = capacity_m t"
    "hasher_m t1 = hasher_m t" "kvf (items t1) = (kvf (items t))(?a := Some (k, v))"
    "posf (items t1) = (posf (items t))(?a := None)" "fresh t1 = Suc (fresh t)" by blast
  have kf: "keyf (items t1) = (keyf (items t))(?a := Some k)"
    using t1(7) by (auto simp: keyf_def fun_eq_iff)
  have sk: "\<And>i. i < ?n \<Longrightarrow> slot_key t1 i = slot_key t i"
    using r t1(3) by (rule slot_key_frame) (use kf a in auto)
  have nk: "\<forall>b\<in>set as. keyf (items t) b \<noteq> Some k"
    using ab keys_entries[OF ch, of k] by blast
  have w1: "wft t1 (as @ [?a]) e (set as) {}"
    unfolding wft_def
  proof (intro conjI)
    show "chain t1 (as @ [?a]) e" by (rule t1(2))
    show "set as \<subseteq> set (as @ [?a])" by auto
    show "slots_rel t1 (set as)"
      using r t1(3,5) by (rule slots_rel_frame) (use t1(8) a in auto)
    have "inj_on (keyf (items t1)) (set as)"
      using inj kf a by (auto simp: inj_on_def)
    moreover have "keyf (items t1) ?a \<notin> keyf (items t1) ` (set as - {?a})"
      using nk kf a by auto
    ultimately show "inj_on (keyf (items t1)) (set (as @ [?a]))" by (simp add: inj_on_insert)
    show "probe_hole (capacity_m t1) (hasher_m t1) (slot_key t1) {}"
      using ph sk slots_rel_cap[OF r] probe_hole_cong[of ?n "slot_key t1" "slot_key t"]
      by (simp add: t1(5,6))
    show "size_m t1 = card (set as)" using sz t1(4) by simp
  qed
  from t1(7) have "kvf (items t1) ?a = Some (k, v)" by simp
  then obtain it where it: "items t1 ?a = Some it" by (auto dest: kvf_SomeD)
  have z1: "z < length (storage t1)" using z t1(3) by simp
  from place_steps_bind[OF z1 it, of resize_if_need] obtain t2 where
    t2: "placed t1 ?a z t2" "(storage_set t1 z (Some ?a) \<bind> (\<lambda>t. set_pos t z \<bind>
           (\<lambda>t2. resize_if_need (t2\<lparr>size_m := size_m t2 + 1\<rparr>)))) = resize_if_need t2" by blast
  have "wft t2 (as @ [?a]) e (Set.insert ?a (set as)) {}"
    using w1 _ a(1) z1 _ _ _ t2(1)
  proof (rule place_wf)
    show "?a \<in> set (as @ [?a])" by simp
    show "storage t1 ! z = None" using z t1(3) by simp
    show "keyf (items t1) ?a = Some k" using kf by simp
    show "\<forall>j<length (storage t1).
       cdist (length (storage t1)) (hasher_m t1 k mod length (storage t1)) j
       < cdist (length (storage t1)) (hasher_m t1 k mod length (storage t1)) z
       \<longrightarrow> slot_key t1 j \<noteq> None"
      using pth sk by (simp add: t1(3,6))
  qed
  then have w2: "wft t2 (as @ [?a]) e (set (as @ [?a])) {}" by simp
  have f2: "size_m t2 = size_m t + 1" "capacity_m t2 = capacity_m t" "fresh t2 = Suc (fresh t)"
    "hasher_m t2 = hasher_m t" "kvf (items t2) = (kvf (items t))(?a := Some (k, v))"
    using t2(1) placed_proj(3)[OF t2(1)] t1(3-9)
    by (simp_all add: placed_def)
  have "size_m t2 * 4 < capacity_m t2 * 3 + 4" using ld f2 by simp
  from resize_if_need_eff[OF w2 _ this] p2 f2(2) obtain t' where
    t': "resize_if_need t2 = Some t'" "tinv t' (as @ [?a]) e" "same_items t2 t'"
    "capacity_m t' = (if size_m t2 * 4 \<ge> capacity_m t2 * 3 then 2 * capacity_m t2 else capacity_m t2)"
    "size_m t' = size_m t2" by auto
  have r1: "insert_new t k v z = Some t'"
    using t1(1) t2(2) t'(1) by (simp add: insert_new_def)
  have kv': "kvf (items t') = (kvf (items t))(?a := Some (k, v))"
    using t'(3) f2(5) by (simp add: same_items_def)
  have en: "entries t' (as @ [?a]) = entries t as @ [(k, v)]"
    using a(1) by (simp add: entries_def kv')
  have "hasher_m t' = hasher_m t" "fresh t' = Suc (fresh t)"
    using t'(3) f2 by (simp_all add: same_items_def)
  then show ?thesis using r1 t'(2,4,5) en f2(1,2) by (intro exI[of _ t']) simp
qed

section \<open>Lookup and insertion on a well-formed table\<close>

lemma tinv_chain: "tinv t as e \<Longrightarrow> chain t as e"
  by (simp add: tinv_def wft_def)

lemma tinv_size: "tinv t as e \<Longrightarrow> size_m t = length as"
  using wft_size by (auto simp: tinv_def)

lemma tinv_size_entries: "tinv t as e \<Longrightarrow> size_m t = length (entries t as)"
  using tinv_size by (simp add: entries_def)

lemma tinv_less: "tinv t as e \<Longrightarrow> size_m t < capacity_m t"
  by (auto simp: tinv_def)

lemma tinv_find_absent:
  assumes inv: "tinv t as e" and ab: "key \<notin> fst ` set (entries t as)"
  obtains z where "z < length (storage t)" "find_pos t key = Some z" "storage t ! z = None"
    "\<forall>j<length (storage t).
       cdist (length (storage t)) (hasher_m t key mod length (storage t)) j
       < cdist (length (storage t)) (hasher_m t key mod length (storage t)) z
       \<longrightarrow> slot_key t j \<noteq> None"
proof -
  from inv have w: "wft t as e (set as) {}" by (simp add: tinv_def)
  then have r: "slots_rel t (set as)" and sz: "size_m t = card (set as)" by (auto simp: wft_def)
  have "card (set as) < capacity_m t" using tinv_less[OF inv] sz by simp
  from wft_empty_slot[OF w this] obtain z0 where z0: "z0 < length (storage t)"
    "storage t ! z0 = None" by blast
  have nk: "\<forall>b\<in>set as. keyf (items t) b \<noteq> Some key"
    using ab keys_entries[OF tinv_chain[OF inv], of key] by blast
  from find_pos_absent[OF r wft_keys[OF w] nk z0] that show ?thesis by blast
qed

lemma tinv_find_present:
  assumes inv: "tinv t as e" and a: "a \<in> set as" "keyf (items t) a = Some key"
  obtains z where "z < length (storage t)" "find_pos t key = Some z" "storage t ! z = Some a"
proof -
  from inv have w: "wft t as e (set as) {}" by (simp add: tinv_def)
  then have r: "slots_rel t (set as)" and inj: "inj_on (keyf (items t)) (set as)"
    and ph: "probe_hole (capacity_m t) (hasher_m t) (slot_key t) {}" by (auto simp: wft_def)
  from find_pos_present[OF r inj ph a] that show ?thesis by blast
qed

lemma tinv_present:
  assumes inv: "tinv t as e" and p: "key \<in> fst ` set (entries t as)"
  obtains a v where "a \<in> set as" "kvf (items t) a = Some (key, v)"
    "keyf (items t) a = Some key"
proof -
  from p keys_entries[OF tinv_chain[OF inv], of key] obtain a where
    a: "a \<in> set as" "keyf (items t) a = Some key" by blast
  then obtain v where "kvf (items t) a = Some (key, v)" by (auto simp: keyf_def)
  with a that show ?thesis by blast
qed

lemma entries_distinct:
  assumes inv: "tinv t as e"
  shows "distinct (map fst (entries t as))"
proof -
  from inv have inj: "inj_on (keyf (items t)) (set as)" by (simp add: tinv_def wft_def)
  have ch: "chain t as e" using inv by (rule tinv_chain)
  have "inj_on (\<lambda>a. fst (the (kvf (items t) a))) (set as)"
  proof (rule inj_onI)
    fix x y assume xy: "x \<in> set as" "y \<in> set as"
      "fst (the (kvf (items t) x)) = fst (the (kvf (items t) y))"
    then have "keyf (items t) x = keyf (items t) y"
      using entries_key[OF ch xy(1)] entries_key[OF ch xy(2)] by simp
    with inj xy show "x = y" by (auto dest: inj_onD)
  qed
  then show ?thesis using chain_distinct[OF ch]
    by (simp add: entries_def distinct_map comp_def)
qed

lemma entries_map_of:
  assumes inv: "tinv t as e" and a: "a \<in> set as" "kvf (items t) a = Some (key, v)"
  shows "map_of (entries t as) key = Some v"
proof -
  have "(key, v) \<in> set (entries t as)" using a by (force simp: entries_def)
  then show ?thesis using entries_distinct[OF inv] by simp
qed

lemma insert_op_unfold:
  "insert_op kv t = do {
     ps \<leftarrow> find_pos t (fst kv);
     p \<leftarrow> storage_at t ps;
     if p = None then insert_new t (fst kv) (snd kv) ps else Some t
   }"
  by (simp add: insert_op_def insert_new_def Let_def cong: if_cong)

lemma insert_op_present:
  assumes inv: "tinv t as e" and p: "k \<in> fst ` set (entries t as)"
  shows "insert_op (k, v) t = Some t"
proof -
  from tinv_present[OF inv p] obtain a where a: "a \<in> set as" "keyf (items t) a = Some k"
    by blast
  from tinv_find_present[OF inv a] obtain z where "z < length (storage t)"
    "find_pos t k = Some z" "storage t ! z = Some a" by blast
  then show ?thesis by (simp add: insert_op_unfold storage_at_def)
qed

lemma insert_op_absent:
  assumes inv: "tinv t as e" and ab: "k \<notin> fst ` set (entries t as)"
  shows "\<exists>t'. insert_op (k, v) t = Some t' \<and> tinv t' (as @ [fresh t]) e
     \<and> entries t' (as @ [fresh t]) = entries t as @ [(k, v)]
     \<and> hasher_m t' = hasher_m t \<and> size_m t' = size_m t + 1 \<and> fresh t' = Suc (fresh t)
     \<and> capacity_m t' = (if (size_m t + 1) * 4 \<ge> capacity_m t * 3
                         then 2 * capacity_m t else capacity_m t)"
proof -
  from tinv_find_absent[OF inv ab] obtain z where z: "z < length (storage t)"
    "find_pos t k = Some z" "storage t ! z = None"
    "\<forall>j<length (storage t).
       cdist (length (storage t)) (hasher_m t k mod length (storage t)) j
       < cdist (length (storage t)) (hasher_m t k mod length (storage t)) z
       \<longrightarrow> slot_key t j \<noteq> None" by blast
  have "insert_op (k, v) t = insert_new t k v z"
    using z(1-3) by (simp add: insert_op_unfold storage_at_def)
  then show ?thesis using insert_new_eff[OF inv ab z(1,3,4), of v] by simp
qed

lemma find_op_present:
  assumes inv: "tinv t as e" and a: "a \<in> set as" "keyf (items t) a = Some k"
  shows "find_op k t = Some (Some a)"
proof -
  from tinv_find_present[OF inv a] obtain z where "z < length (storage t)"
    "find_pos t k = Some z" "storage t ! z = Some a" by blast
  then show ?thesis by (simp add: find_op_def storage_at_def)
qed

lemma find_op_absent:
  assumes inv: "tinv t as e" and ab: "k \<notin> fst ` set (entries t as)"
  shows "find_op k t = Some (end_m t)"
proof -
  from tinv_find_absent[OF inv ab] obtain z where "z < length (storage t)"
    "find_pos t k = Some z" "storage t ! z = None" by blast
  then show ?thesis by (simp add: find_op_def storage_at_def)
qed

lemma at_eff:
  assumes inv: "tinv t as e"
  shows "at k t = Some (case map_of (entries t as) k of None \<Rightarrow> Inl OutOfRange | Some v \<Rightarrow> Inr v)"
proof (cases "k \<in> fst ` set (entries t as)")
  case True
  from tinv_present[OF inv True] obtain a v where a: "a \<in> set as"
    "kvf (items t) a = Some (k, v)" "keyf (items t) a = Some k" by blast
  from tinv_find_present[OF inv a(1,3)] obtain z where z: "z < length (storage t)"
    "find_pos t k = Some z" "storage t ! z = Some a" by blast
  from kvf_SomeD[OF a(2)] obtain it where "items t a = Some it" "keyValue it = Some (k, v)"
    by blast
  then have "at k t = Some (Inr v)" using z by (simp add: at_def storage_at_def)
  then show ?thesis using entries_map_of[OF inv a(1,2)] by simp
next
  case False
  from tinv_find_absent[OF inv False] obtain z where "z < length (storage t)"
    "find_pos t k = Some z" "storage t ! z = None" by blast
  then have "at k t = Some (Inl OutOfRange)" by (simp add: at_def storage_at_def)
  moreover have "map_of (entries t as) k = None" using False by (simp add: map_of_eq_None_iff)
  ultimately show ?thesis by simp
qed

lemma index_op_unfold:
  "index_op dflt key t = do {
     ps \<leftarrow> find_pos t key;
     p \<leftarrow> storage_at t ps;
     (ps1, t1) \<leftarrow> (if p = None then do {
         t4 \<leftarrow> insert_new t key dflt ps;
         ps1 \<leftarrow> find_pos t4 key;
         Some (ps1, t4)
       } else Some (ps, t));
     p1 \<leftarrow> storage_at t1 ps1;
     a \<leftarrow> p1;
     it \<leftarrow> items t1 a;
     kv \<leftarrow> keyValue it;
     Some (a, t1)
   }"
  by (simp add: index_op_def insert_new_def split_def cong: if_cong)

lemma index_op_present:
  assumes inv: "tinv t as e" and a: "a \<in> set as" "kvf (items t) a = Some (k, v)"
  shows "index_op dflt k t = Some (a, t)" "deref t a = Some v"
proof -
  have kf: "keyf (items t) a = Some k" using a(2) by (simp add: keyf_def)
  from tinv_find_present[OF inv a(1) kf] obtain z where z: "z < length (storage t)"
    "find_pos t k = Some z" "storage t ! z = Some a" by blast
  from kvf_SomeD[OF a(2)] obtain it where it: "items t a = Some it" "keyValue it = Some (k, v)"
    by blast
  show "index_op dflt k t = Some (a, t)" using z it by (simp add: index_op_unfold storage_at_def)
  show "deref t a = Some v" using it by (simp add: deref_def)
qed

lemma index_op_absent:
  assumes inv: "tinv t as e" and ab: "k \<notin> fst ` set (entries t as)"
  shows "\<exists>t'. index_op dflt k t = Some (fresh t, t') \<and> deref t' (fresh t) = Some dflt
     \<and> insert_op (k, dflt) t = Some t'"
proof -
  let ?a = "fresh t" and ?as = "as @ [fresh t]"
  from tinv_find_absent[OF inv ab] obtain z where z: "z < length (storage t)"
    "find_pos t k = Some z" "storage t ! z = None"
    "\<forall>j<length (storage t).
       cdist (length (storage t)) (hasher_m t k mod length (storage t)) j
       < cdist (length (storage t)) (hasher_m t k mod length (storage t)) z
       \<longrightarrow> slot_key t j \<noteq> None" by blast
  from insert_new_eff[OF inv ab z(1,3,4), of dflt] obtain t' where
    t': "insert_new t k dflt z = Some t'" "tinv t' ?as e"
    "entries t' ?as = entries t as @ [(k, dflt)]" by blast
  have "kvf (items t') ?a = Some (k, dflt)"
  proof -
    have "kvf (items t') ?a \<noteq> None" using tinv_chain[OF t'(2)] by (simp add: chain_def)
    moreover have "the (kvf (items t') ?a) = (k, dflt)" using t'(3) by (simp add: entries_def)
    ultimately show ?thesis by auto
  qed
  then have a: "?a \<in> set ?as" "kvf (items t') ?a = Some (k, dflt)"
    "keyf (items t') ?a = Some k" by (simp_all add: keyf_def)
  from tinv_find_present[OF t'(2) a(1,3)] obtain z' where z': "z' < length (storage t')"
    "find_pos t' k = Some z'" "storage t' ! z' = Some ?a" by blast
  from kvf_SomeD[OF a(2)] obtain it where it: "items t' ?a = Some it"
    "keyValue it = Some (k, dflt)" by blast
  have 1: "index_op dflt k t = Some (?a, t')"
    using z(1-3) t'(1) z' it by (simp add: index_op_unfold storage_at_def)
  have 2: "deref t' ?a = Some dflt" using it by (simp add: deref_def)
  have 3: "insert_op (k, dflt) t = Some t'"
    using z(1-3) t'(1) by (simp add: insert_op_unfold storage_at_def)
  show ?thesis using 1 2 3 by (intro exI[of _ t']) simp
qed

section \<open>The empty table\<close>

lemma HashMap_new_eq: "HashMap_new hasher = Some (new_table hasher)"
  by (simp add: HashMap_new_def init_def Item_sentinel_def connect_def new_table_def)

lemma new_table_tinv: "tinv (new_table hasher) [] 0"
proof -
  have "chain (new_table hasher) [] 0"
    by (simp add: chain_def dllf_def new_table_def nxtf_def prvf_def)
  moreover have "slots_rel (new_table hasher) {}"
    by (simp add: slots_rel_def new_table_def)
  moreover have "probe_hole 1 hasher (slot_key (new_table hasher)) {}"
    by (simp add: probe_hole_def slot_key_def new_table_def)
  moreover have "\<exists>m. (1::nat) = 2 ^ m" by (rule exI[of _ 0]) simp
  ultimately show ?thesis
    by (simp add: tinv_def wft_def) (simp add: new_table_def)
qed

lemma new_table_entries [simp]: "entries (new_table hasher) [] = []"
  by (simp add: entries_def)

section \<open>Cyclic ranges\<close>

lemma range_hole_before:
  assumes "h < n" "p < n" "z < n" "p \<noteq> z"
    and "\<not> is_in_range h (cnext n p) z"
  shows "cdist n h p < cdist n h z"
  using assms by (auto simp: is_in_range_def cdist_def cnext_def split: if_splits)

lemma hole_advance:
  assumes "p < n" "z < n" "z0 < n" "p \<noteq> z0" "z \<noteq> p"
    and "cdist n (cnext n p) z < cdist n (cnext n p) z0"
  shows "cdist n z z0 < cdist n p z0"
  using assms by (auto simp: cdist_def cnext_def split: if_splits)

lemma scan_between:
  assumes "h < n" "p < n" "i < n" "z < n"
    and "cdist n h p < cdist n h i"
    and "cdist n (cnext n p) z < cdist n (cnext n p) i"
  shows "cdist n h z < cdist n h i \<and> z \<noteq> p"
  using assms by (auto simp: cdist_def cnext_def split: if_splits)

lemma range_excludes_hole:
  assumes "h < n" "p < n" "i < n"
    and "cdist n h p < cdist n h i"
    and "is_in_range h (cnext n p) i"
  shows False
  using assms by (auto simp: is_in_range_def cdist_def cnext_def split: if_splits)

section \<open>Backward-shift deletion\<close>

lemma shift_steps:
  assumes p: "p < length (storage t)" and z: "z < length (storage t)" and pz: "p \<noteq> z"
    and it: "items t b = Some it"
  shows "\<exists>t'. shifted t p z b t' \<and> (storage_set t p (Some b) \<bind> (\<lambda>t1. storage_set t1 z None \<bind>
           (\<lambda>t2. set_pos t2 p \<bind> F))) = F t'"
  using p z pz it
  by (intro exI[of _ "t\<lparr>storage := (storage t)[p := Some b, z := None],
        items := (items t)(b \<mapsto> it\<lparr>pos := Some p\<rparr>)\<rparr>"])
     (simp add: storage_set_def set_pos_def storage_at_def shifted_def)

lemma shifted_proj:
  assumes "shifted t p z b t'"
  shows "nxtf (items t') = nxtf (items t)" "prvf (items t') = prvf (items t)"
    "kvf (items t') = kvf (items t)" "keyf (items t') = keyf (items t)"
    "posf (items t') = (posf (items t))(b := Some p)"
    "\<And>x. items t' x \<noteq> None \<longleftrightarrow> items t x \<noteq> None"
proof -
  from assms obtain it where it: "items t b = Some it"
    "items t' = (items t)(b \<mapsto> it\<lparr>pos := Some p\<rparr>)"
    unfolding shifted_def by blast
  note u = upd_pos_proj[where h="items t" and a=b and it=it and p="Some p", OF it(1), folded it(2)]
  show "nxtf (items t') = nxtf (items t)" "prvf (items t') = prvf (items t)"
    "kvf (items t') = kvf (items t)" "keyf (items t') = keyf (items t)"
    "posf (items t') = (posf (items t))(b := Some p)"
    "\<And>x. items t' x \<noteq> None \<longleftrightarrow> items t x \<noteq> None"
    using u by auto
qed

lemma shifted_same_items:
  assumes p: "shifted t p z b t'"
  shows "same_items t t'"
proof -
  have "\<forall>x. items t' x = None \<longleftrightarrow> items t x = None" using shifted_proj(6)[OF p] by blast
  then show ?thesis using shifted_proj(1-3)[OF p] p unfolding same_items_def shifted_def by blast
qed

lemma shifted_slot_key:
  assumes s: "shifted t p z b t'" and p: "p < length (storage t)" and z: "z < length (storage t)"
    and i: "i < length (storage t)"
  shows "slot_key t' i = (if i = z then None else if i = p then keyf (items t) b else slot_key t i)"
proof -
  have "storage t' = (storage t)[p := Some b, z := None]" using s by (simp add: shifted_def)
  then show ?thesis using p z i shifted_proj(4)[OF s]
    by (auto simp: slot_key_def split: option.splits)
qed

lemma shift_wft:
  assumes w: "wft t as e X {p}" and p: "p < length (storage t)" "storage t ! p = None"
    and z: "z < length (storage t)" "storage t ! z = Some b" "slot_key t z = Some k"
    and disp: "\<not> is_in_range (hasher_m t k mod length (storage t)) (cnext (length (storage t)) p) z"
    and sh: "shifted t p z b t'"
  shows "wft t' as e X {z}"
proof -
  let ?n = "length (storage t)"
  from w have c: "chain t as e" and X: "X \<subseteq> set as" and r: "slots_rel t X"
    and inj: "inj_on (keyf (items t)) (set as)"
    and ph: "probe_hole (capacity_m t) (hasher_m t) (slot_key t) {p}"
    and sz: "size_m t = card X" by (auto simp: wft_def)
  from sh have st: "storage t' = (storage t)[p := Some b, z := None]" and f: "size_m t' = size_m t"
    "capacity_m t' = capacity_m t" "hasher_m t' = hasher_m t"
    by (auto simp: shifted_def)
  note pj = shifted_proj[OF sh]
  from slots_rel_cap[OF r] have cap: "capacity_m t = ?n" "0 < ?n" by auto
  have pz: "p \<noteq> z" using p z by auto
  from slots_rel_slot[OF r z(1,2)] have b: "b \<in> X" "posf (items t) b = Some z" by auto
  have kb: "keyf (items t) b = Some k" using z(2,3) by (simp add: slot_key_def)
  have c': "chain t' as e" using shifted_same_items[OF sh] c by (rule same_items_chain)
  have r': "slots_rel t' X"
    unfolding slots_rel_def
  proof (intro conjI allI impI ballI)
    show "capacity_m t' = length (storage t')" using cap f st by simp
    show "0 < capacity_m t'" using cap f by simp
  next
    fix i c assume ic: "i < length (storage t')" "storage t' ! i = Some c"
    then have i: "i < ?n" "i \<noteq> z" using st by auto
    show "c \<in> X" using ic st i p b slots_rel_slot[OF r, of i c] by (cases "i = p") auto
    show "posf (items t') c = Some i"
    proof (cases "i = p")
      case True
      then show ?thesis using ic st i p pj(5) by auto
    next
      case False
      then have sc: "storage t ! i = Some c" using ic st i by auto
      with slots_rel_inj[OF r i(1) z(1), of c] z(2) i(2) have "c \<noteq> b" by auto
      then show ?thesis using slots_rel_slot[OF r i(1) sc] pj(5) by simp
    qed
  next
    fix c assume cX: "c \<in> X"
    show "\<exists>i<length (storage t'). storage t' ! i = Some c"
    proof (cases "c = b")
      case True
      then show ?thesis using st p pz by (intro exI[of _ p]) simp
    next
      case False
      from slots_rel_mem[OF r cX] obtain i where i: "i < ?n" "storage t ! i = Some c" by auto
      with p z False have "i \<noteq> p" "i \<noteq> z" by auto
      with i show ?thesis using st by (intro exI[of _ i]) simp
    qed
  qed
  have inj': "inj_on (keyf (items t')) (set as)" using inj pj(4) by simp
  have ph': "probe_hole (capacity_m t') (hasher_m t') (slot_key t') {z}"
    unfolding probe_hole_def f cap
  proof (intro allI impI)
    fix i j k'
    assume ij: "i < ?n" "j < ?n" and sk: "slot_key t' i = Some k'"
      and d: "cdist ?n (hasher_m t k' mod ?n) j < cdist ?n (hasher_m t k' mod ?n) i"
      and jz: "j \<notin> {z}"
    have iz: "i \<noteq> z" using sk shifted_slot_key[OF sh p(1) z(1) ij(1)] by auto
    have "slot_key t j \<noteq> None \<or> j = p"
    proof (cases "i = p")
      case True
      then have k': "k' = k" using sk shifted_slot_key[OF sh p(1) z(1) ij(1)] kb pz by simp
      let ?h = "hasher_m t k mod ?n"
      have "?h < ?n" using cap by simp
      from range_hole_before[OF this p(1) z(1) pz disp]
      have "cdist ?n ?h j < cdist ?n ?h z" using d True k' by simp
      with ph ij(2) z(1,3) show ?thesis unfolding probe_hole_def cap by blast
    next
      case False
      then have "slot_key t i = Some k'" using sk iz shifted_slot_key[OF sh p(1) z(1) ij(1)] by simp
      with ph ij d show ?thesis unfolding probe_hole_def cap by blast
    qed
    then show "slot_key t' j \<noteq> None"
      using shifted_slot_key[OF sh p(1) z(1) ij(2)] kb jz by auto
  qed
  show ?thesis unfolding wft_def using c' X r' inj' ph' sz f by simp
qed

lemma final_wft:
  assumes w: "wft t as e X {p}" and p: "p < length (storage t)"
    and z: "z < length (storage t)" "storage t ! z = None"
    and scanned: "\<forall>j<length (storage t).
       cdist (length (storage t)) (cnext (length (storage t)) p) j
       < cdist (length (storage t)) (cnext (length (storage t)) p) z \<longrightarrow>
       (\<exists>k. slot_key t j = Some k \<and>
          is_in_range (hasher_m t k mod length (storage t)) (cnext (length (storage t)) p) j)"
  shows "wft t as e X {}"
proof -
  let ?n = "length (storage t)"
  from w have r: "slots_rel t X"
    and ph: "probe_hole (capacity_m t) (hasher_m t) (slot_key t) {p}" by (auto simp: wft_def)
  from slots_rel_cap[OF r] have cap: "capacity_m t = ?n" "0 < ?n" by auto
  have zk: "slot_key t z = None" using z by (simp add: slot_key_def)
  have "probe_hole (capacity_m t) (hasher_m t) (slot_key t) {}"
    unfolding probe_hole_def cap
  proof (intro allI impI)
    fix i j k
    assume ij: "i < ?n" "j < ?n" and sk: "slot_key t i = Some k"
      and d: "cdist ?n (hasher_m t k mod ?n) j < cdist ?n (hasher_m t k mod ?n) i"
    let ?h = "hasher_m t k mod ?n"
    have h: "?h < ?n" using cap by simp
    show "slot_key t j \<noteq> None"
    proof (cases "j = p")
      case False
      with ph ij sk d show ?thesis unfolding probe_hole_def cap by blast
    next
      case True
      then have dp: "cdist ?n ?h p < cdist ?n ?h i" using d by simp
      have before: "cdist ?n (cnext ?n p) i < cdist ?n (cnext ?n p) z"
      proof (rule ccontr)
        assume "\<not> ?thesis"
        moreover have "i \<noteq> z" using sk zk by auto
        ultimately have "cdist ?n (cnext ?n p) z < cdist ?n (cnext ?n p) i"
          using ij(1) z(1) p by (auto simp: cdist_def cnext_def split: if_splits)
        from scan_between[OF h p ij(1) z(1) dp this]
        have "cdist ?n ?h z < cdist ?n ?h i" "z \<noteq> p" by auto
        with ph ij(1) z(1) sk have "slot_key t z \<noteq> None" unfolding probe_hole_def cap by blast
        with zk show False by simp
      qed
      with scanned ij(1) sk have "is_in_range ?h (cnext ?n p) i" by auto
      from range_excludes_hole[OF h p ij(1) dp this] show ?thesis ..
    qed
  qed
  then show ?thesis using w by (simp add: wft_def)
qed

lemma find_next_eff:
  assumes w: "wft t as e X H" and p: "p < length (storage t)"
    and z0: "z0 < length (storage t)" "storage t ! z0 = None"
  obtains z where "z < length (storage t)" "find_next t p = Some z"
    "storage t ! z = None \<or> (\<exists>k. slot_key t z = Some k \<and>
        \<not> is_in_range (hasher_m t k mod length (storage t)) (cnext (length (storage t)) p) z)"
    "\<forall>j<length (storage t).
       cdist (length (storage t)) (cnext (length (storage t)) p) j
       < cdist (length (storage t)) (cnext (length (storage t)) p) z \<longrightarrow>
       (\<exists>k. slot_key t j = Some k \<and>
          is_in_range (hasher_m t k mod length (storage t)) (cnext (length (storage t)) p) j)"
    "cdist (length (storage t)) (cnext (length (storage t)) p) z
     \<le> cdist (length (storage t)) (cnext (length (storage t)) p) z0"
proof -
  let ?n = "length (storage t)"
  let ?s = "cnext ?n p"
  let ?Q = "\<lambda>z. storage t ! z = None \<or> (\<exists>k. slot_key t z = Some k \<and>
        \<not> is_in_range (hasher_m t k mod ?n) ?s z)"
  from w have r: "slots_rel t X" by (simp add: wft_def)
  from slots_rel_cap[OF r] have cap: "capacity_m t = ?n" "0 < ?n" by auto
  have s: "?s < ?n" using p by (rule cnext_less)
  have "?Q z0" using z0 by simp
  from first_stop[of z0 ?n ?Q ?s, OF z0(1) this]
  obtain z where z: "z < ?n" "?Q z" "\<forall>j<?n. cdist ?n ?s j < cdist ?n ?s z \<longrightarrow> \<not> ?Q j"
    by blast
  have cont: "\<forall>j<?n. cdist ?n ?s j < cdist ?n ?s z \<longrightarrow>
       (\<exists>k. slot_key t j = Some k \<and> is_in_range (hasher_m t k mod ?n) ?s j)"
  proof (intro allI impI)
    fix j assume j: "j < ?n" "cdist ?n ?s j < cdist ?n ?s z"
    with z(3) have nq: "\<not> ?Q j" by blast
    then have "storage t ! j \<noteq> None" by simp
    with slot_key_occupied[OF r wft_keys[OF w] j(1)] obtain k where k: "slot_key t j = Some k"
      by auto
    with nq have "is_in_range (hasher_m t k mod ?n) ?s j" by auto
    with k show "\<exists>k. slot_key t j = Some k \<and> is_in_range (hasher_m t k mod ?n) ?s j" by blast
  qed
  have "find_next_loop t p ?s = Some z"
    using cap(1) z(1) s z(2) cont by (rule find_next_loop_stop)
  then have fn: "find_next t p = Some z" by (simp add: find_next_def cyclic_inc_cnext cap)
  have le: "cdist ?n ?s z \<le> cdist ?n ?s z0"
    using z(3) z0(1) \<open>?Q z0\<close> by (auto simp: not_less[symmetric])
  show ?thesis using z(1) fn z(2) cont le by (rule that)
qed

lemma cdist_inj: "a < n \<Longrightarrow> b < n \<Longrightarrow> c < n \<Longrightarrow> cdist n a b = cdist n a c \<Longrightarrow> b = c"
  by (auto simp: cdist_def split: if_splits)

lemma erase_loop_eff:
  assumes w: "wft t as e X {p}" and p: "p < length (storage t)" "storage t ! p = None"
    and z0: "z0 < length (storage t)" "storage t ! z0 = None" "z0 \<noteq> p"
  shows "\<exists>z t'. find_next t p = Some z \<and> erase_loop t p z = Some t' \<and> wft t' as e X {}
     \<and> same_items t t' \<and> capacity_m t' = capacity_m t \<and> size_m t' = size_m t"
  using w p z0
proof (induction "cdist (length (storage t)) p z0" arbitrary: t p rule: less_induct)
  case less
  let ?n = "length (storage t)"
  let ?s = "cnext ?n p"
  note w = less.prems(1) and p = less.prems(2,3) and z0 = less.prems(4,5,6)
  from find_next_eff[OF w p(1) z0(1,2)] obtain z where z: "z < ?n" "find_next t p = Some z"
    "storage t ! z = None \<or> (\<exists>k. slot_key t z = Some k \<and>
        \<not> is_in_range (hasher_m t k mod ?n) ?s z)"
    "\<forall>j<?n. cdist ?n ?s j < cdist ?n ?s z \<longrightarrow>
       (\<exists>k. slot_key t j = Some k \<and> is_in_range (hasher_m t k mod ?n) ?s j)"
    "cdist ?n ?s z \<le> cdist ?n ?s z0" by blast
  show ?case
  proof (cases "storage t ! z")
    case None
    then have "erase_loop t p z = Some t" using z(1)
      by (subst erase_loop.simps) (simp add: storage_at_def)
    moreover have "wft t as e X {}" using w p(1) z(1) None z(4) by (rule final_wft)
    ultimately show ?thesis using z(2) by (intro exI[of _ z] exI[of _ t]) simp
  next
    case (Some b)
    with z(3) obtain k where k: "slot_key t z = Some k"
      "\<not> is_in_range (hasher_m t k mod ?n) ?s z" by auto
    have zp: "z \<noteq> p" "z \<noteq> z0" using Some p(2) z0(2) by auto
    from w have r: "slots_rel t X" and X: "X \<subseteq> set as" by (auto simp: wft_def)
    from slots_rel_slot[OF r z(1) Some] X have "b \<in> set as" by auto
    from wft_key[OF w this] obtain it where it: "items t b = Some it" by blast
    let ?F = "\<lambda>t3. find_next t3 z \<bind> (\<lambda>n. erase_loop t3 z n)"
    from shift_steps[OF p(1) z(1) zp(1)[symmetric] it, of ?F] obtain t1 where
      t1: "shifted t p z b t1" "(storage_set t p (Some b) \<bind> (\<lambda>t1. storage_set t1 z None \<bind>
           (\<lambda>t2. set_pos t2 p \<bind> ?F))) = ?F t1" by blast
    have w1: "wft t1 as e X {z}" using w p z(1) Some k t1(1) by (rule shift_wft)
    have st1: "storage t1 = (storage t)[p := Some b, z := None]"
      and f1: "size_m t1 = size_m t" "capacity_m t1 = capacity_m t"
      using t1(1) by (auto simp: shifted_def)
    have n1: "length (storage t1) = ?n" using st1 by simp
    have s: "?s < ?n" using p(1) by (rule cnext_less)
    have "cdist ?n ?s z \<noteq> cdist ?n ?s z0" using cdist_inj[OF s z(1) z0(1)] zp(2) by auto
    with z(5) have "cdist ?n ?s z < cdist ?n ?s z0" by simp
    from hole_advance[OF p(1) z(1) z0(1) z0(3)[symmetric] zp(1) this]
    have dec: "cdist (length (storage t1)) z z0 < cdist ?n p z0" by (simp add: n1)
    have "\<exists>z' t'. find_next t1 z = Some z' \<and> erase_loop t1 z z' = Some t' \<and> wft t' as e X {}
       \<and> same_items t1 t' \<and> capacity_m t' = capacity_m t1 \<and> size_m t' = size_m t1"
      using dec w1
    proof (rule less.hyps)
      show "z < length (storage t1)" using z(1) n1 by simp
      show "storage t1 ! z = None" using st1 z(1) by simp
      show "z0 < length (storage t1)" using z0(1) n1 by simp
      show "storage t1 ! z0 = None" using st1 z0 zp by simp
      show "z0 \<noteq> z" using zp by simp
    qed
    then obtain z' t' where t': "find_next t1 z = Some z'" "erase_loop t1 z z' = Some t'"
      "wft t' as e X {}" "same_items t1 t'" "capacity_m t' = capacity_m t1"
      "size_m t' = size_m t1" by blast
    have "erase_loop t p z = ?F t1"
      using z(1) Some t1(2) by (subst erase_loop.simps) (simp add: storage_at_def)
    then have "erase_loop t p z = Some t'" using t'(1,2) by simp
    moreover have "same_items t t'"
      using shifted_same_items[OF t1(1)] t'(4) by (rule same_items_trans)
    ultimately show ?thesis using z(2) t'(3,5,6) f1
      by (intro exI[of _ z] exI[of _ t']) simp
  qed
qed

text \<open>The table after the item has been deleted and its slot cleared.\<close>

lemma erase_hole_wft:
  assumes w: "wft t as e (set as) {}" and a: "a \<in> set as"
    and z: "z < length (storage t)" "storage t ! z = Some a"
    and c1: "chain t1 (remove1 a as) e"
    and f: "storage t1 = (storage t)[z := None]" "capacity_m t1 = capacity_m t"
      "hasher_m t1 = hasher_m t" "size_m t1 = size_m t - 1"
      "kvf (items t1) = (kvf (items t))(a := None)"
      "posf (items t1) = (posf (items t))(a := None)"
  shows "wft t1 (remove1 a as) e (set (remove1 a as)) {z}"
proof -
  let ?n = "length (storage t)"
  from w have c: "chain t as e" and r: "slots_rel t (set as)"
    and inj: "inj_on (keyf (items t)) (set as)"
    and ph: "probe_hole (capacity_m t) (hasher_m t) (slot_key t) {}"
    and sz: "size_m t = card (set as)" by (auto simp: wft_def)
  from chain_distinct[OF c] have d: "distinct as" by simp
  then have X: "set (remove1 a as) = set as - {a}" by simp
  from slots_rel_cap[OF r] have cap: "capacity_m t = ?n" "0 < ?n" by auto
  have kf: "keyf (items t1) = (keyf (items t))(a := None)"
    using f(5) by (auto simp: keyf_def fun_eq_iff)
  have r1: "slots_rel t1 (set as - {a})"
    unfolding slots_rel_def
  proof (intro conjI allI impI ballI)
    show "capacity_m t1 = length (storage t1)" using cap f by simp
    show "0 < capacity_m t1" using cap f by simp
  next
    fix i b assume ib: "i < length (storage t1)" "storage t1 ! i = Some b"
    then have i: "i < ?n" "i \<noteq> z" "storage t ! i = Some b"
      using f(1) z(1) by (auto simp: nth_list_update split: if_splits)
    with slots_rel_inj[OF r i(1) z(1), of b] z(2) have ba: "b \<noteq> a" by auto
    show "b \<in> set as - {a}" using slots_rel_slot[OF r i(1,3)] ba by simp
    show "posf (items t1) b = Some i" using slots_rel_slot[OF r i(1,3)] ba f(6) by simp
  next
    fix b assume b: "b \<in> set as - {a}"
    with slots_rel_mem[OF r, of b] obtain i where i: "i < ?n" "storage t ! i = Some b" by auto
    with z b have "i \<noteq> z" by auto
    with i show "\<exists>i<length (storage t1). storage t1 ! i = Some b"
      using f(1) by (intro exI[of _ i]) simp
  qed
  have sk: "\<And>i. i < ?n \<Longrightarrow> slot_key t1 i = (if i = z then None else slot_key t i)"
  proof -
    fix i assume i: "i < ?n"
    show "slot_key t1 i = (if i = z then None else slot_key t i)"
    proof (cases "i = z")
      case True
      then show ?thesis using f(1) z(1) by (simp add: slot_key_def)
    next
      case False
      show ?thesis
      proof (cases "storage t ! i")
        case None
        then show ?thesis using False f(1) i by (simp add: slot_key_def)
      next
        case (Some b)
        with slots_rel_inj[OF r i z(1), of b] z(2) False have "b \<noteq> a" by auto
        then show ?thesis using False Some f(1) i kf by (simp add: slot_key_def)
      qed
    qed
  qed
  have ph1: "probe_hole (capacity_m t1) (hasher_m t1) (slot_key t1) {z}"
    unfolding probe_hole_def f cap
  proof (intro allI impI)
    fix i j k
    assume ij: "i < ?n" "j < ?n" and s1: "slot_key t1 i = Some k"
      and dd: "cdist ?n (hasher_m t k mod ?n) j < cdist ?n (hasher_m t k mod ?n) i"
      and jz: "j \<notin> {z}"
    from s1 sk[OF ij(1)] have "slot_key t i = Some k" by (auto split: if_splits)
    with ph ij dd have "slot_key t j \<noteq> None" unfolding probe_hole_def cap by blast
    then show "slot_key t1 j \<noteq> None" using sk[OF ij(2)] jz by simp
  qed
  have inj1: "inj_on (keyf (items t1)) (set as - {a})"
    using inj kf by (auto simp: inj_on_def)
  have sz1: "size_m t1 = card (set as - {a})" using sz f(4) a by simp
  show ?thesis unfolding wft_def X using c1 r1 inj1 ph1 sz1 by simp
qed

lemma erase_absent:
  assumes inv: "tinv t as e" and ab: "k \<notin> fst ` set (entries t as)"
  shows "erase k t = Some t"
proof -
  from tinv_find_absent[OF inv ab] obtain z where "z < length (storage t)"
    "find_pos t k = Some z" "storage t ! z = None" by blast
  then show ?thesis by (simp add: erase_def storage_at_def)
qed

lemma erase_present:
  assumes inv: "tinv t as e" and a: "a \<in> set as" "keyf (items t) a = Some k"
  shows "\<exists>t'. erase k t = Some t' \<and> tinv t' (remove1 a as) e
     \<and> kvf (items t') = (kvf (items t))(a := None)
     \<and> capacity_m t' = capacity_m t \<and> size_m t' = size_m t - 1
     \<and> hasher_m t' = hasher_m t \<and> fresh t' = fresh t"
proof -
  let ?n = "length (storage t)" and ?as = "remove1 a as"
  from inv have w: "wft t as e (set as) {}" and ld: "size_m t * 4 < capacity_m t * 3"
    and p2: "\<exists>m. capacity_m t = 2 ^ m" by (auto simp: tinv_def)
  from w have ch: "chain t as e" and r: "slots_rel t (set as)"
    and sz: "size_m t = card (set as)" by (auto simp: wft_def)
  from tinv_find_present[OF inv a] obtain z where z: "z < ?n" "find_pos t k = Some z"
    "storage t ! z = Some a" by blast
  have "card (set as) < capacity_m t" using ld sz by simp
  from wft_empty_slot[OF w this] obtain z0 where z0: "z0 < ?n" "storage t ! z0 = None" by blast
  then have z0z: "z0 \<noteq> z" using z(3) by auto
  from delete_item_eff[OF ch a(1)] obtain t1 where t1: "delete_item t (Some a) = Some t1"
    "chain t1 ?as e" "storage t1 = storage t" "size_m t1 = size_m t"
    "capacity_m t1 = capacity_m t" "hasher_m t1 = hasher_m t" "fresh t1 = fresh t"
    "kvf (items t1) = (kvf (items t))(a := None)"
    "posf (items t1) = (posf (items t))(a := None)" by blast
  let ?t3 = "t1\<lparr>storage := (storage t1)[z := None], size_m := size_m t1 - 1\<rparr>"
  have s13: "same_items t1 ?t3" by (simp add: same_items_def)
  have w3: "wft ?t3 ?as e (set ?as) {z}"
    using w a(1) z(1,3)
  proof (rule erase_hole_wft)
    show "chain ?t3 ?as e" using s13 t1(2) by (rule same_items_chain)
  qed (simp_all add: t1)
  have "\<exists>z' t'. find_next ?t3 z = Some z' \<and> erase_loop ?t3 z z' = Some t'
     \<and> wft t' ?as e (set ?as) {}
     \<and> same_items ?t3 t' \<and> capacity_m t' = capacity_m ?t3 \<and> size_m t' = size_m ?t3"
    using w3
  proof (rule erase_loop_eff)
    show "z < length (storage ?t3)" using z(1) t1(3) by simp
    show "storage ?t3 ! z = None" using z(1) t1(3) by simp
    show "z0 < length (storage ?t3)" using z0(1) t1(3) by simp
    show "storage ?t3 ! z0 = None" using z0 z0z t1(3) by simp
    show "z0 \<noteq> z" by (rule z0z)
  qed
  then obtain z' t4 where t4: "find_next ?t3 z = Some z'" "erase_loop ?t3 z z' = Some t4"
    "wft t4 ?as e (set ?as) {}" "same_items ?t3 t4" "capacity_m t4 = capacity_m ?t3"
    "size_m t4 = size_m ?t3" by blast
  have f4: "capacity_m t4 = capacity_m t" "size_m t4 = size_m t - 1"
    using t4(5,6) t1(4,5) by simp_all
  have l4: "size_m t4 * 4 < capacity_m t4 * 3" using f4 ld by simp
  then have "size_m t4 * 4 < capacity_m t4 * 3 + 4" by simp
  from resize_if_need_eff[OF t4(3) _ this] p2 f4(1) obtain t5 where
    t5: "resize_if_need t4 = Some t5" "tinv t5 ?as e" "same_items t4 t5"
    "capacity_m t5 = (if size_m t4 * 4 \<ge> capacity_m t4 * 3 then 2 * capacity_m t4 else capacity_m t4)"
    "size_m t5 = size_m t4" by auto
  have r1: "erase k t = Some t5"
    using z t1(1,3) t4(1,2) t5(1)
    by (simp add: erase_def storage_at_def storage_set_def Let_def)
  have "same_items t1 t5"
    using same_items_trans[OF s13 t4(4)] t5(3) by (rule same_items_trans)
  then have "kvf (items t5) = (kvf (items t))(a := None)" "hasher_m t5 = hasher_m t"
    "fresh t5 = fresh t" using t1(6-8) by (simp_all add: same_items_def)
  moreover have "capacity_m t5 = capacity_m t" "size_m t5 = size_m t - 1"
    using t5(4,5) l4 f4 by simp_all
  ultimately show ?thesis using r1 t5(2) by (intro exI[of _ t5]) simp
qed

lemma erase_entries:
  assumes inv: "tinv t as e" and a: "a \<in> set as" "keyf (items t) a = Some k"
    and kv: "kvf (items t') = (kvf (items t))(a := None)"
  shows "entries t' (remove1 a as) = filter (\<lambda>kv. fst kv \<noteq> k) (entries t as)"
proof -
  have ch: "chain t as e" using inv by (rule tinv_chain)
  from inv have inj: "inj_on (keyf (items t)) (set as)" by (simp add: tinv_def wft_def)
  from chain_distinct[OF ch] have d: "distinct as" by simp
  have rm: "remove1 a as = filter (\<lambda>b. b \<noteq> a) as"
    using d by (simp add: distinct_remove1_removeAll removeAll_filter_not_eq) (metis)
  have "\<And>b. b \<in> set as \<Longrightarrow> (fst (the (kvf (items t) b)) \<noteq> k) = (b \<noteq> a)"
  proof -
    fix b assume b: "b \<in> set as"
    have "keyf (items t) b = Some k \<longleftrightarrow> b = a"
      using inj_onD[OF inj _ b a(1)] a(2) by auto
    then show "(fst (the (kvf (items t) b)) \<noteq> k) = (b \<noteq> a)"
      using entries_key[OF ch b] by auto
  qed
  then have "filter (\<lambda>kv. fst kv \<noteq> k) (entries t as)
      = map (\<lambda>a. the (kvf (items t) a)) (filter (\<lambda>b. b \<noteq> a) as)"
    by (simp add: entries_def filter_map comp_def cong: filter_cong)
  also have "\<dots> = entries t' (remove1 a as)"
    unfolding rm entries_def kv by (rule map_cong) auto
  finally show ?thesis by simp
qed

section \<open>Clearing a table\<close>

lemma slots_rel_remove:
  assumes r: "slots_rel t X" and z: "z < length (storage t)" "storage t ! z = Some a"
    and f: "storage t1 = (storage t)[z := None]" "capacity_m t1 = capacity_m t"
      "\<And>b. b \<in> X \<Longrightarrow> b \<noteq> a \<Longrightarrow> posf (items t1) b = posf (items t) b"
  shows "slots_rel t1 (X - {a})"
  unfolding slots_rel_def
proof (intro conjI allI impI ballI)
  let ?n = "length (storage t)"
  from slots_rel_cap[OF r] have cap: "capacity_m t = ?n" "0 < ?n" by auto
  show "capacity_m t1 = length (storage t1)" using cap f by simp
  show "0 < capacity_m t1" using cap f by simp
next
  let ?n = "length (storage t)"
  fix i b assume ib: "i < length (storage t1)" "storage t1 ! i = Some b"
  then have i: "i < ?n" "i \<noteq> z" "storage t ! i = Some b"
    using f(1) z(1) by (auto simp: nth_list_update split: if_splits)
  with slots_rel_inj[OF r i(1) z(1), of b] z(2) have ba: "b \<noteq> a" by auto
  show "b \<in> X - {a}" using slots_rel_slot[OF r i(1,3)] ba by simp
  show "posf (items t1) b = Some i" using slots_rel_slot[OF r i(1,3)] ba f(3) by simp
next
  let ?n = "length (storage t)"
  fix b assume b: "b \<in> X - {a}"
  with slots_rel_mem[OF r, of b] obtain i where i: "i < ?n" "storage t ! i = Some b" by auto
  with z b have "i \<noteq> z" by auto
  with i show "\<exists>i<length (storage t1). storage t1 ! i = Some b"
    using f(1) by (intro exI[of _ i]) simp
qed

lemma clear_loop_eff:
  assumes c: "chain t as e" and r: "slots_rel t (set as)"
  shows "\<exists>t'. clear_loop t (Some (hd (as @ [e]))) = Some t' \<and> chain t' [] e
     \<and> slots_rel t' {} \<and> capacity_m t' = capacity_m t \<and> hasher_m t' = hasher_m t
     \<and> fresh t' = fresh t"
  using c r
proof (induction as arbitrary: t)
  case Nil
  then have "end_m t = Some e" by (simp add: chain_def)
  then show ?case using Nil by (subst clear_loop.simps) simp
next
  case (Cons a as)
  note c = Cons.prems(1) and r = Cons.prems(2)
  have e: "end_m t = Some e" using c by (simp add: chain_def)
  from chain_distinct[OF c] have d: "a \<notin> set as" "a \<noteq> e" "distinct as" by auto
  from chain_item[OF c, of a] obtain it where it: "items t a = Some it" by auto
  from slots_rel_mem[OF r, of a] obtain i where i: "i < length (storage t)"
    "storage t ! i = Some a" by auto
  from slots_rel_slot[OF r i] have "posf (items t) a = Some i" by simp
  then have ps: "pos it = Some i" using it by (simp add: proj_Some)
  have "nxtf (items t) a = Some (hd (as @ [e]))"
    using chain_next[OF c, of "[]" a as] by simp
  then have nx: "nxt it = Some (hd (as @ [e]))" using it by (simp add: proj_Some)
  let ?t1 = "t\<lparr>storage := (storage t)[i := None]\<rparr>"
  have s1: "same_items t ?t1" by (simp add: same_items_def)
  have c1: "chain ?t1 (a # as) e" using s1 c by (rule same_items_chain)
  from delete_item_eff[OF c1, of a] obtain t2 where t2: "delete_item ?t1 (Some a) = Some t2"
    "chain t2 (remove1 a (a # as)) e" "storage t2 = storage ?t1" "capacity_m t2 = capacity_m ?t1"
    "hasher_m t2 = hasher_m ?t1" "fresh t2 = fresh ?t1"
    "posf (items t2) = (posf (items ?t1))(a := None)" by auto
  have c2: "chain t2 as e" using t2(2) by simp
  have "slots_rel t2 (set (a # as) - {a})"
    using r i
  proof (rule slots_rel_remove)
    show "storage t2 = (storage t)[i := None]" using t2(3) by simp
    show "capacity_m t2 = capacity_m t" using t2(4) by simp
    show "\<And>b. b \<in> set (a # as) \<Longrightarrow> b \<noteq> a \<Longrightarrow> posf (items t2) b = posf (items t) b"
      using t2(7) by simp
  qed
  then have r2: "slots_rel t2 (set as)" using d(1) by simp
  from Cons.IH[OF c2 r2] obtain t' where t': "clear_loop t2 (Some (hd (as @ [e]))) = Some t'"
    "chain t' [] e" "slots_rel t' {}" "capacity_m t' = capacity_m t2"
    "hasher_m t' = hasher_m t2" "fresh t' = fresh t2" by blast
  have "clear_loop t (Some (hd ((a # as) @ [e]))) = Some t'"
    using e d(2) it ps i(1) t2(1) nx t'(1)
    by (subst clear_loop.simps) (simp add: storage_set_def)
  then show ?case using t'(2-6) t2(4-6) by (intro exI[of _ t']) simp
qed

lemma empty_tinv:
  assumes c: "chain t [] e" and r: "slots_rel t {}" and s: "size_m t = 0"
    and p2: "\<exists>m. capacity_m t = 2 ^ m"
  shows "tinv t [] e"
proof -
  have cap: "capacity_m t = length (storage t)" "0 < capacity_m t"
    using r by (auto simp: slots_rel_def)
  have "\<And>i. i < capacity_m t \<Longrightarrow> slot_key t i = None"
  proof -
    fix i assume "i < capacity_m t"
    then have "storage t ! i = None" using r cap by (cases "storage t ! i") (auto simp: slots_rel_def)
    then show "slot_key t i = None" by (simp add: slot_key_def)
  qed
  then have ph: "probe_hole (capacity_m t) (hasher_m t) (slot_key t) {}"
    by (simp add: probe_hole_def)
  have w: "wft t [] e (set []) {}"
    unfolding wft_def using c r ph s by simp
  show ?thesis unfolding tinv_def using w s cap(2) p2 by simp
qed

lemma clear_eff:
  assumes inv: "tinv t as e"
  shows "\<exists>t'. clear t = Some t' \<and> tinv t' [] e \<and> capacity_m t' = capacity_m t
     \<and> hasher_m t' = hasher_m t \<and> fresh t' = fresh t \<and> size_m t' = 0"
proof -
  from inv have c: "chain t as e" and r: "slots_rel t (set as)"
    and p2: "\<exists>m. capacity_m t = 2 ^ m" by (auto simp: tinv_def wft_def)
  from clear_loop_eff[OF c r] obtain t1 where t1: "clear_loop t (Some (hd (as @ [e]))) = Some t1"
    "chain t1 [] e" "slots_rel t1 {}" "capacity_m t1 = capacity_m t"
    "hasher_m t1 = hasher_m t" "fresh t1 = fresh t" by blast
  let ?t' = "t1\<lparr>size_m := 0\<rparr>"
  have s: "same_items t1 ?t'" by (simp add: same_items_def)
  have "chain ?t' [] e" using s t1(2) by (rule same_items_chain)
  moreover have "slots_rel ?t' {}" using t1(3) by (rule slots_rel_frame) simp_all
  ultimately have "tinv ?t' [] e" using p2 t1(4) by (intro empty_tinv) simp_all
  moreover have "clear t = Some ?t'" using t1(1) chain_begin[OF c] by (simp add: clear_def)
  ultimately show ?thesis using t1(4-6) by (intro exI[of _ ?t']) simp
qed

section \<open>Deleting all items\<close>

lemma delete_all_loop_eff:
  assumes c: "chain t cs e"
    and b: "\<forall>i\<in>set is. i < length (storage t)" and d: "distinct is"
    and inj: "\<forall>i\<in>set is. \<forall>j\<in>set is. \<forall>a. storage t ! i = Some a \<longrightarrow> storage t ! j = Some a \<longrightarrow> i = j"
    and cover: "set cs = {a. \<exists>i\<in>set is. storage t ! i = Some a}"
  shows "\<exists>t'. delete_all_loop is t = Some t' \<and> chain t' [] e \<and> storage t' = storage t
     \<and> hasher_m t' = hasher_m t \<and> fresh t' = fresh t"
  using c b d inj cover
proof (induction "is" arbitrary: t cs)
  case Nil
  then show ?case by simp
next
  case (Cons i "is")
  note c = Cons.prems(1)
  have i: "i < length (storage t)" "i \<notin> set is" using Cons.prems(2,3) by auto
  show ?case
  proof (cases "storage t ! i")
    case None
    have cov: "set cs = {a. \<exists>j\<in>set is. storage t ! j = Some a}"
      using Cons.prems(5) None by auto
    have "\<exists>t'. delete_all_loop is t = Some t' \<and> chain t' [] e \<and> storage t' = storage t
       \<and> hasher_m t' = hasher_m t \<and> fresh t' = fresh t"
      using c _ _ _ cov
    proof (rule Cons.IH)
      show "\<forall>i\<in>set is. i < length (storage t)" using Cons.prems(2) by simp
      show "distinct is" using Cons.prems(3) by simp
      show "\<forall>i\<in>set is. \<forall>j\<in>set is. \<forall>a. storage t ! i = Some a \<longrightarrow> storage t ! j = Some a \<longrightarrow> i = j"
        using Cons.prems(4) by simp
    qed
    then show ?thesis using None i by (simp add: storage_at_def delete_item_def)
  next
    case (Some a)
    then have a: "a \<in> set cs" using Cons.prems(5) by auto
    from delete_item_eff[OF c a] obtain t1 where t1: "delete_item t (Some a) = Some t1"
      "chain t1 (remove1 a cs) e" "storage t1 = storage t" "hasher_m t1 = hasher_m t"
      "fresh t1 = fresh t" by blast
    have once: "\<forall>j\<in>set is. storage t ! j \<noteq> Some a"
    proof
      fix j assume j: "j \<in> set is"
      show "storage t ! j \<noteq> Some a"
      proof
        assume "storage t ! j = Some a"
        with Cons.prems(4) Some j have "i = j" by auto
        with i(2) j show False by simp
      qed
    qed
    have "set (remove1 a cs) = set cs - {a}" using chain_distinct[OF c] by simp
    also have "\<dots> = {b. \<exists>j\<in>set is. storage t ! j = Some b}"
      using Cons.prems(5) Some once by auto
    finally have cov: "set (remove1 a cs) = {b. \<exists>j\<in>set is. storage t1 ! j = Some b}"
      using t1(3) by simp
    have "\<exists>t'. delete_all_loop is t1 = Some t' \<and> chain t' [] e \<and> storage t' = storage t1
       \<and> hasher_m t' = hasher_m t1 \<and> fresh t' = fresh t1"
      using t1(2) _ _ _ cov
    proof (rule Cons.IH)
      show "\<forall>i\<in>set is. i < length (storage t1)" using Cons.prems(2) t1(3) by simp
      show "distinct is" using Cons.prems(3) by simp
      show "\<forall>i\<in>set is. \<forall>j\<in>set is. \<forall>a. storage t1 ! i = Some a \<longrightarrow> storage t1 ! j = Some a \<longrightarrow> i = j"
        using Cons.prems(4) t1(3) by simp
    qed
    then show ?thesis using Some i t1 by (simp add: storage_at_def)
  qed
qed

lemma delete_all_eff:
  assumes inv: "tinv t as e"
  shows "\<exists>t'. delete_all t = Some t' \<and> tinv t' [] e \<and> capacity_m t' = 1
     \<and> hasher_m t' = hasher_m t \<and> fresh t' = fresh t \<and> size_m t' = 0"
proof -
  let ?n = "length (storage t)"
  from inv have c: "chain t as e" and r: "slots_rel t (set as)" by (auto simp: tinv_def wft_def)
  have cover: "set as = {a. \<exists>i\<in>set [0..<?n]. storage t ! i = Some a}"
  proof (intro set_eqI iffI)
    fix a assume "a \<in> set as"
    from slots_rel_mem[OF r this] obtain i where "i < ?n" "storage t ! i = Some a" by blast
    then show "a \<in> {a. \<exists>i\<in>set [0..<?n]. storage t ! i = Some a}" by auto
  next
    fix a assume "a \<in> {a. \<exists>i\<in>set [0..<?n]. storage t ! i = Some a}"
    then obtain i where "i < ?n" "storage t ! i = Some a" by auto
    from slots_rel_slot[OF r this] show "a \<in> set as" by simp
  qed
  have "\<exists>t'. delete_all_loop [0..<?n] t = Some t' \<and> chain t' [] e \<and> storage t' = storage t
     \<and> hasher_m t' = hasher_m t \<and> fresh t' = fresh t"
    using c _ _ _ cover
  proof (rule delete_all_loop_eff)
    show "\<forall>i\<in>set [0..<?n]. i < ?n" by simp
    show "distinct [0..<?n]" by simp
    show "\<forall>i\<in>set [0..<?n]. \<forall>j\<in>set [0..<?n]. \<forall>a.
        storage t ! i = Some a \<longrightarrow> storage t ! j = Some a \<longrightarrow> i = j"
      using slots_rel_inj[OF r] by auto
  qed
  then obtain t1 where t1: "delete_all_loop [0..<?n] t = Some t1" "chain t1 [] e"
    "storage t1 = storage t" "hasher_m t1 = hasher_m t" "fresh t1 = fresh t" by blast
  let ?t' = "t1\<lparr>storage := [None], begin_m := end_m t1, capacity_m := 1, size_m := 0\<rparr>"
  have "begin_m t1 = end_m t1" using t1(2) by (simp add: chain_def dllf_def)
  then have s: "same_items t1 ?t'" by (simp add: same_items_def)
  have "chain ?t' [] e" using s t1(2) by (rule same_items_chain)
  moreover have "slots_rel ?t' {}" by (simp add: slots_rel_def)
  moreover have "\<exists>m. capacity_m ?t' = 2 ^ m" by (intro exI[of _ 0]) simp
  ultimately have "tinv ?t' [] e" by (intro empty_tinv) simp_all
  moreover have "delete_all t = Some ?t'" using t1(1) by (simp add: delete_all_def)
  ultimately show ?thesis using t1(4,5) by (intro exI[of _ ?t']) simp
qed

section \<open>The contents of a table as a list of pairs\<close>

lemma contentI: "tinv t as e \<Longrightarrow> entries t as = es \<Longrightarrow> content t es"
  by (auto simp: content_def)

lemma contentE:
  assumes "content t es"
  obtains as e where "tinv t as e" "entries t as = es"
  using assms by (auto simp: content_def)

lemma content_to_list: "content t es \<Longrightarrow> to_list t = Some es"
  using to_list_chain tinv_chain by (fastforce simp: content_def)

lemma content_size: "content t es \<Longrightarrow> size_m t = length es"
  using tinv_size_entries by (fastforce simp: content_def)

lemma content_distinct: "content t es \<Longrightarrow> distinct (map fst es)"
  using entries_distinct by (fastforce simp: content_def)

lemma content_load:
  "content t es \<Longrightarrow> size_m t * 4 < capacity_m t * 3 \<and> (\<exists>m. capacity_m t = 2 ^ m)"
  by (auto simp: content_def tinv_def)

lemma content_at:
  "content t es \<Longrightarrow>
   at k t = Some (case map_of es k of None \<Rightarrow> Inl OutOfRange | Some v \<Rightarrow> Inr v)"
  using at_eff by (fastforce simp: content_def)

lemma content_new: "content (new_table hasher) []"
  using new_table_tinv[of hasher] by (rule contentI) simp

lemma content_insert:
  assumes c: "content t es"
  shows "\<exists>t'. insert_op kv t = Some t' \<and> content t' (ins_spec kv es)
     \<and> hasher_m t' = hasher_m t
     \<and> capacity_m t' = (if fst kv \<notin> fst ` set es \<and> (size_m t + 1) * 4 \<ge> capacity_m t * 3
                         then 2 * capacity_m t else capacity_m t)"
proof -
  obtain k v where kv: "kv = (k, v)" by (cases kv)
  from c obtain as e where inv: "tinv t as e" and es: "entries t as = es" by (rule contentE)
  show ?thesis
  proof (cases "k \<in> fst ` set es")
    case True
    then have "insert_op (k, v) t = Some t" using insert_op_present[OF inv] es by simp
    then show ?thesis using True c kv by (simp add: ins_spec_def)
  next
    case False
    with insert_op_absent[OF inv, of k v] es obtain t' where
      t': "insert_op (k, v) t = Some t'" "tinv t' (as @ [fresh t]) e"
      "entries t' (as @ [fresh t]) = entries t as @ [(k, v)]" "hasher_m t' = hasher_m t"
      "capacity_m t' = (if (size_m t + 1) * 4 \<ge> capacity_m t * 3
                         then 2 * capacity_m t else capacity_m t)" by auto
    have "content t' (ins_spec kv es)"
      using t'(2) by (rule contentI) (use t'(3) False es kv in \<open>simp add: ins_spec_def\<close>)
    then show ?thesis using t'(1,4,5) False kv by (intro exI[of _ t']) simp
  qed
qed

lemma content_erase:
  assumes c: "content t es"
  shows "\<exists>t'. erase k t = Some t' \<and> content t' (del_spec k es)
     \<and> hasher_m t' = hasher_m t \<and> capacity_m t' = capacity_m t
     \<and> find_op k t' = Some (end_m t')"
proof -
  from c obtain as e where inv: "tinv t as e" and es: "entries t as = es" by (rule contentE)
  show ?thesis
  proof (cases "k \<in> fst ` set es")
    case False
    then have "erase k t = Some t" using erase_absent[OF inv] es by simp
    moreover have "del_spec k es = es" using False by (auto simp: del_spec_def filter_id_conv)
    moreover have "find_op k t = Some (end_m t)" using find_op_absent[OF inv] False es by simp
    ultimately show ?thesis using c by simp
  next
    case True
    then have "k \<in> fst ` set (entries t as)" using es by simp
    from tinv_present[OF inv this] obtain a where a: "a \<in> set as"
      "keyf (items t) a = Some k" by blast
    from erase_present[OF inv a] obtain t' where t': "erase k t = Some t'"
      "tinv t' (remove1 a as) e" "kvf (items t') = (kvf (items t))(a := None)"
      "capacity_m t' = capacity_m t" "hasher_m t' = hasher_m t" by blast
    have en: "entries t' (remove1 a as) = del_spec k es"
      using erase_entries[OF inv a t'(3)] es by (simp add: del_spec_def)
    have ct: "content t' (del_spec k es)" using t'(2) en by (rule contentI)
    have "k \<notin> fst ` set (entries t' (remove1 a as))" unfolding en by (auto simp: del_spec_def)
    from find_op_absent[OF t'(2) this] have "find_op k t' = Some (end_m t')" .
    then show ?thesis using t'(1,4,5) ct by (intro exI[of _ t']) simp
  qed
qed

lemma content_clear:
  assumes c: "content t es"
  shows "\<exists>t'. clear t = Some t' \<and> content t' [] \<and> hasher_m t' = hasher_m t
     \<and> capacity_m t' = capacity_m t"
proof -
  from c obtain as e where inv: "tinv t as e" by (rule contentE)
  from clear_eff[OF inv] obtain t' where t': "clear t = Some t'" "tinv t' [] e"
    "capacity_m t' = capacity_m t" "hasher_m t' = hasher_m t" by blast
  have "content t' []" using t'(2) by (rule contentI) (simp add: entries_def)
  then show ?thesis using t' by (intro exI[of _ t']) simp
qed

lemma content_delete_all:
  assumes c: "content t es"
  shows "\<exists>t'. delete_all t = Some t' \<and> content t' [] \<and> hasher_m t' = hasher_m t
     \<and> capacity_m t' = 1"
proof -
  from c obtain as e where inv: "tinv t as e" by (rule contentE)
  from delete_all_eff[OF inv] obtain t' where t': "delete_all t = Some t'" "tinv t' [] e"
    "capacity_m t' = 1" "hasher_m t' = hasher_m t" by blast
  have "content t' []" using t'(2) by (rule contentI) (simp add: entries_def)
  then show ?thesis using t' by (intro exI[of _ t']) simp
qed

lemma content_index:
  assumes c: "content t es"
  shows "\<exists>a t'. index_op dflt k t = Some (a, t') \<and> insert_op (k, dflt) t = Some t'
     \<and> content t' (ins_spec (k, dflt) es)
     \<and> deref t' a = Some (case map_of es k of None \<Rightarrow> dflt | Some v \<Rightarrow> v)"
proof -
  from c obtain as e where inv: "tinv t as e" and es: "entries t as = es" by (rule contentE)
  show ?thesis
  proof (cases "k \<in> fst ` set es")
    case True
    then have "k \<in> fst ` set (entries t as)" using es by simp
    from tinv_present[OF inv this] obtain a v where a: "a \<in> set as"
      "kvf (items t) a = Some (k, v)" by blast
    from index_op_present[OF inv a] have 1: "index_op dflt k t = Some (a, t)"
      "deref t a = Some v" by auto
    have 2: "insert_op (k, dflt) t = Some t" using insert_op_present[OF inv] True es by simp
    have 3: "map_of es k = Some v" using entries_map_of[OF inv a] es by simp
    show ?thesis using 1 2 3 c True by (intro exI[of _ a] exI[of _ t]) (simp add: ins_spec_def)
  next
    case False
    with index_op_absent[OF inv, of k dflt] es obtain t' where
      t': "index_op dflt k t = Some (fresh t, t')" "deref t' (fresh t) = Some dflt"
      "insert_op (k, dflt) t = Some t'" by auto
    from content_insert[OF c, of "(k, dflt)"] t'(3) have "content t' (ins_spec (k, dflt) es)"
      by auto
    moreover have "map_of es k = None" using False by (simp add: map_of_eq_None_iff)
    ultimately show ?thesis using t' by (intro exI[of _ "fresh t"] exI[of _ t']) simp
  qed
qed

lemma content_insert_list:
  assumes c: "content t es"
  shows "\<exists>t'. insert_list kvs t = Some t' \<and> content t' (ins_all kvs es)
     \<and> hasher_m t' = hasher_m t"
  using c
proof (induction kvs arbitrary: t es)
  case Nil
  then show ?case by (simp add: ins_all_def)
next
  case (Cons kv kvs)
  from content_insert[OF Cons.prems, of kv] obtain t1 where t1: "insert_op kv t = Some t1"
    "content t1 (ins_spec kv es)" "hasher_m t1 = hasher_m t" by blast
  from Cons.IH[OF t1(2)] obtain t' where t': "insert_list kvs t1 = Some t'"
    "content t' (ins_all kvs (ins_spec kv es))" "hasher_m t' = hasher_m t1" by blast
  show ?case using t1 t' by (intro exI[of _ t']) (simp add: ins_all_def)
qed

lemma insert_range_list:
  assumes c: "chain ot as e" and as: "as = xs @ ys"
  shows "insert_range ot (Some (hd (ys @ [e]))) t = insert_list (entries ot ys) t"
  using as
proof (induction ys arbitrary: xs t)
  case Nil
  have "end_m ot = Some e" using c by (simp add: chain_def)
  then show ?case by (subst insert_range.simps) (simp add: entries_def)
next
  case (Cons a ys)
  have e: "end_m ot = Some e" using c by (simp add: chain_def)
  from chain_distinct[OF c] Cons.prems have a: "a \<in> set as" "a \<noteq> e" by auto
  from chain_item[OF c a(1)] obtain it kv where it: "items ot a = Some it"
    "keyValue it = Some kv" by blast
  have "nxtf (items ot) a = Some (hd (ys @ [e]))" using c Cons.prems by (rule chain_next)
  then have nx: "nxt it = Some (hd (ys @ [e]))" using it by (simp add: proj_Some)
  have "as = (xs @ [a]) @ ys" using Cons.prems by simp
  then have ih: "\<And>t. insert_range ot (Some (hd (ys @ [e]))) t = insert_list (entries ot ys) t"
    by (rule Cons.IH)
  have kv: "kvf (items ot) a = Some kv" using it by (simp add: proj_Some)
  have "insert_range ot (Some (hd ((a # ys) @ [e]))) t
      = insert_op kv t \<bind> (\<lambda>t1. insert_range ot (Some (hd (ys @ [e]))) t1)"
    using e a(2) it nx by (subst insert_range.simps) simp
  also have "\<dots> = insert_list (entries ot (a # ys)) t"
    using kv by (simp add: ih entries_def)
  finally show ?case .
qed

lemma content_insert_range:
  assumes co: "content ot os" and c: "content t es"
  shows "\<exists>t'. insert_range ot (begin_m ot) t = Some t' \<and> content t' (ins_all os es)
     \<and> hasher_m t' = hasher_m t"
proof -
  from co obtain as e where inv: "tinv ot as e" and os: "entries ot as = os" by (rule contentE)
  have ch: "chain ot as e" using inv by (rule tinv_chain)
  have "insert_range ot (begin_m ot) t = insert_list os t"
    using insert_range_list[OF ch, of "[]" as t] chain_begin[OF ch] os by simp
  then show ?thesis using content_insert_list[OF c, of os] by simp
qed

subsection \<open>Properties of the list model\<close>

lemma ins_spec_keys: "fst ` set (ins_spec kv es) = Set.insert (fst kv) (fst ` set es)"
  by (auto simp: ins_spec_def)

lemma ins_spec_distinct: "distinct (map fst es) \<Longrightarrow> distinct (map fst (ins_spec kv es))"
  by (auto simp: ins_spec_def)

lemma ins_spec_map_of:
  "map_of (ins_spec kv es) k = (case map_of es k of Some v \<Rightarrow> Some v
      | None \<Rightarrow> if k = fst kv then Some (snd kv) else None)"
proof (cases "fst kv \<in> fst ` set es")
  case True
  then have "map_of es (fst kv) \<noteq> None" by (simp add: map_of_eq_None_iff)
  then show ?thesis using True by (auto simp: ins_spec_def split: option.splits)
next
  case False
  then have n: "map_of es (fst kv) = None" by (simp add: map_of_eq_None_iff)
  have "ins_spec kv es = es @ [(fst kv, snd kv)]" using False by (simp add: ins_spec_def)
  then show ?thesis using n by (auto simp: map_add_def split: option.splits)
qed

lemma ins_all_keys: "fst ` set (ins_all kvs es) = fst ` set es \<union> fst ` set kvs"
  unfolding ins_all_def
  by (induction kvs arbitrary: es) (auto simp: ins_spec_keys)

lemma ins_all_distinct: "distinct (map fst es) \<Longrightarrow> distinct (map fst (ins_all kvs es))"
  unfolding ins_all_def
  by (induction kvs arbitrary: es) (auto simp: ins_spec_distinct)

lemma ins_all_map_of:
  "map_of (ins_all kvs es) k = (case map_of es k of Some v \<Rightarrow> Some v | None \<Rightarrow> map_of kvs k)"
  unfolding ins_all_def
proof (induction kvs arbitrary: es)
  case Nil
  then show ?case by (simp split: option.splits)
next
  case (Cons kv kvs)
  show ?case by (cases kv) (simp add: Cons.IH ins_spec_map_of split: option.splits)
qed

lemma ins_all_length: "length (ins_all kvs []) = card (fst ` set kvs)"
proof -
  have "length (ins_all kvs []) = length (map fst (ins_all kvs []))" by simp
  also have "\<dots> = card (set (map fst (ins_all kvs [])))"
    using ins_all_distinct[of "[]" kvs] distinct_card[of "map fst (ins_all kvs [])"] by simp
  also have "\<dots> = card (fst ` set kvs)" using ins_all_keys[of kvs "[]"] by simp
  finally show ?thesis .
qed

lemma ins_all_fresh:
  assumes "distinct (map fst (es @ kvs))"
  shows "ins_all kvs es = es @ kvs"
  using assms unfolding ins_all_def
  by (induction kvs arbitrary: es) (auto simp: ins_spec_def)

section \<open>Writes through references\<close>

lemma tinv_assign_value:
  assumes inv: "tinv t as e" and w: "assign_value a v t = Some t'"
  shows "tinv t' as e"
proof -
  from w obtain it kv where it: "items t a = Some it" "keyValue it = Some kv"
    and t': "t' = t\<lparr>items := (items t)(a \<mapsto> it\<lparr>keyValue := Some (fst kv, v)\<rparr>)\<rparr>"
    by (auto simp: assign_value_def split: bind_splits)
  have pj: "nxtf (items t') = nxtf (items t)" "prvf (items t') = prvf (items t)"
    "posf (items t') = posf (items t)" "keyf (items t') = keyf (items t)"
    using it by (auto simp: t' fun_eq_iff proj_Some keyf_def)
  have dom: "\<And>x. items t' x \<noteq> None \<longleftrightarrow> items t x \<noteq> None" using it by (simp add: t')
  have kv: "\<And>x. kvf (items t) x \<noteq> None \<Longrightarrow> kvf (items t') x \<noteq> None"
    by (simp add: t')
  have f: "begin_m t' = begin_m t" "end_m t' = end_m t" "fresh t' = fresh t"
    "storage t' = storage t" "capacity_m t' = capacity_m t" "hasher_m t' = hasher_m t"
    "size_m t' = size_m t" by (simp_all add: t')
  from inv have c: "chain t as e" and r: "slots_rel t (set as)"
    and inj: "inj_on (keyf (items t)) (set as)"
    and ph: "probe_hole (capacity_m t) (hasher_m t) (slot_key t) {}"
    and sz: "size_m t = card (set as)"
    and ld: "size_m t * 4 < capacity_m t * 3" "\<exists>m. capacity_m t = 2 ^ m"
    by (auto simp: tinv_def wft_def)
  have c': "chain t' as e"
    using c f(1-3) pj(1,2) dom by (rule chain_frame) (use c kv in \<open>auto simp: chain_def\<close>)
  have r': "slots_rel t' (set as)" using r f(4,5) by (rule slots_rel_frame) (simp add: pj)
  have sk: "\<And>i. slot_key t' i = slot_key t i"
    by (simp add: slot_key_def f pj cong: option.case_cong)
  have ph': "probe_hole (capacity_m t') (hasher_m t') (slot_key t') {}"
    using ph sk by (simp add: f probe_hole_def)
  show ?thesis unfolding tinv_def wft_def using c' r' inj ph' sz ld by (simp add: pj f)
qed

section \<open>Reachable tables\<close>

lemma content_from_list:
  "\<exists>t. HashMap_from_list kvs hasher = Some t \<and> content t (ins_all kvs [])
     \<and> hasher_m t = hasher"
  using content_insert_list[OF content_new[of hasher], of kvs]
  by (simp add: HashMap_from_list_def HashMap_new_eq new_table_def)

lemma content_copy:
  assumes co: "content ot os"
  shows "\<exists>t. HashMap_copy ot hasher = Some t \<and> content t os \<and> hasher_m t = hasher"
proof -
  from content_insert_range[OF co content_new[of hasher]] obtain t where
    t: "insert_range ot (begin_m ot) (new_table hasher) = Some t" "content t (ins_all os [])"
    "hasher_m t = hasher" by (auto simp: new_table_def)
  have "ins_all os [] = os" using ins_all_fresh[of "[]" os] content_distinct[OF co] by simp
  then show ?thesis using t
    by (intro exI[of _ t]) (simp add: HashMap_copy_def HashMap_new_eq new_table_def)
qed

lemma content_assign:
  assumes co: "content ot os" and c: "content t es"
  shows "\<exists>t'. assign_from ot t = Some t' \<and> content t' os \<and> hasher_m t' = hasher_m t"
proof -
  from content_delete_all[OF c] obtain t1 where t1: "delete_all t = Some t1" "content t1 []"
    "hasher_m t1 = hasher_m t" by blast
  from content_insert_range[OF co t1(2)] obtain t' where
    t': "insert_range ot (begin_m ot) t1 = Some t'" "content t' (ins_all os [])"
    "hasher_m t' = hasher_m t1" by blast
  have "ins_all os [] = os" using ins_all_fresh[of "[]" os] content_distinct[OF co] by simp
  then show ?thesis using t1 t' by (intro exI[of _ t']) (simp add: assign_from_def)
qed

lemma reachable_content: "reachable t \<Longrightarrow> \<exists>es. content t es"
proof (induction rule: reachable.induct)
  case (new hasher t)
  then have "t = new_table hasher" by (simp add: HashMap_new_eq)
  then show ?case using content_new[of hasher] by (intro exI[of _ "[]"]) simp
next
  case (from_list kvs hasher t)
  from content_from_list[of kvs hasher] obtain t2 where
    "HashMap_from_list kvs hasher = Some t2" "content t2 (ins_all kvs [])" by blast
  with from_list have "content t (ins_all kvs [])" by simp
  then show ?case ..
next
  case (copy ot hasher t)
  then obtain os where os: "content ot os" by blast
  from content_copy[OF os, of hasher] obtain t2 where
    "HashMap_copy ot hasher = Some t2" "content t2 os" by blast
  with copy.hyps(2) have "content t os" by simp
  then show ?case ..
next
  case (assign t ot t')
  then obtain es os where es: "content t es" and os: "content ot os" by blast
  from content_assign[OF os es] obtain t2 where
    "assign_from ot t = Some t2" "content t2 os" by blast
  with assign.hyps(3) have "content t' os" by simp
  then show ?case ..
next
  case (insert t kv t')
  then obtain es where es: "content t es" by blast
  from content_insert[OF es, of kv] obtain t2 where
    "insert_op kv t = Some t2" "content t2 (ins_spec kv es)" by blast
  with insert.hyps(2) have "content t' (ins_spec kv es)" by simp
  then show ?case ..
next
  case (erase t k t')
  then obtain es where es: "content t es" by blast
  from content_erase[OF es, of k] obtain t2 where
    "erase k t = Some t2" "content t2 (del_spec k es)" by blast
  with erase.hyps(2) have "content t' (del_spec k es)" by simp
  then show ?case ..
next
  case (index t dflt k a t')
  then obtain es where es: "content t es" by blast
  from content_index[OF es, of dflt k] obtain a2 t2 where
    "index_op dflt k t = Some (a2, t2)" "content t2 (ins_spec (k, dflt) es)" by blast
  with index.hyps(2) have "content t' (ins_spec (k, dflt) es)" by simp
  then show ?case ..
next
  case (store t a v t')
  then obtain as e where inv: "tinv t as e" unfolding content_def by blast
  from tinv_assign_value[OF inv store.hyps(2)] have "content t' (entries t' as)"
    by (rule contentI) simp
  then show ?case ..
next
  case (clear t t')
  then obtain es where es: "content t es" by blast
  from content_clear[OF es] obtain t2 where "clear t = Some t2" "content t2 []" by blast
  with clear.hyps(2) have "content t' []" by simp
  then show ?case ..
qed

section \<open>Sequences of operations\<close>

subsection \<open>Lemmas for the claims\<close>

lemma cdist_eq_mod: "a < n \<Longrightarrow> b < n \<Longrightarrow> cdist n a b = (b + n - a) mod n"
  by (auto simp: cdist_def mod_if)

lemma cnext_eq_mod: "p < n \<Longrightarrow> cnext n p = (p + 1) mod n"
  by (auto simp: cnext_def mod_if)

lemma content_run:
  assumes c: "content t es"
  shows "\<exists>t'. run_actions xs t = Some t' \<and> content t' (order_spec xs es)"
  using c
proof (induction xs arbitrary: t es)
  case Nil
  then show ?case by simp
next
  case (Cons x xs)
  show ?case
  proof (cases x)
    case (Insert k v)
    from content_insert[OF Cons.prems, of "(k, v)"] obtain t1 where
      t1: "insert_op (k, v) t = Some t1" "content t1 (ins_spec (k, v) es)" by blast
    from Cons.IH[OF t1(2)] t1(1) show ?thesis by (simp add: Insert)
  next
    case (Erase k)
    from content_erase[OF Cons.prems, of k] obtain t1 where
      t1: "erase k t = Some t1" "content t1 (del_spec k es)" by blast
    from Cons.IH[OF t1(2)] t1(1) show ?thesis by (simp add: Erase)
  qed
qed

lemma content_resize:
  assumes c: "content t es" and n: "size_m t < n"
  shows "\<exists>t'. resize n t = Some t' \<and> to_list t' = Some es \<and> same_items t t'
     \<and> capacity_m t' = n"
proof -
  from c obtain as e where inv: "tinv t as e" and es: "entries t as = es" by (rule contentE)
  from inv have ch: "chain t as e" and inj: "inj_on (keyf (items t)) (set as)"
    by (auto simp: tinv_def wft_def)
  have "length as < n" using n tinv_size[OF inv] by simp
  from resize_eff[OF ch inj this] obtain t' where t': "resize n t = Some t'"
    "wft t' as e (set as) {}" "same_items t t'" "capacity_m t' = n" by blast
  have "chain t' as e" using t'(2) by (simp add: wft_def)
  then have "to_list t' = Some (entries t' as)" by (rule to_list_chain)
  moreover have "entries t' as = es" using t'(3) es by (simp add: entries_def same_items_def)
  ultimately show ?thesis using t' by (intro exI[of _ t']) simp
qed

lemma del_spec_length:
  assumes "distinct (map fst es)" and "k \<in> fst ` set es"
  shows "length (del_spec k es) = length es - 1"
  using assms unfolding del_spec_def
proof (induction es)
  case Nil
  then show ?case by simp
next
  case (Cons x es)
  show ?case
  proof (cases "fst x = k")
    case True
    then have "k \<notin> fst ` set es" using Cons.prems(1) by auto
    then have "filter (\<lambda>kv. fst kv \<noteq> k) es = es" by (auto simp: filter_id_conv)
    then show ?thesis using True by simp
  next
    case False
    then have k: "k \<in> fst ` set es" using Cons.prems(2) by auto
    then have "es \<noteq> []" by auto
    then have "0 < length es" by simp
    then show ?thesis using False Cons.IH k Cons.prems(1) by simp
  qed
qed

lemma del_ins_length:
  assumes d: "distinct (map fst es)"
  shows "length (del_spec k (ins_spec (k, v) es))
     = (if k \<in> fst ` set es then length es - 1 else length es)"
proof (cases "k \<in> fst ` set es")
  case True
  then show ?thesis using del_spec_length[OF d True] by (simp add: ins_spec_def)
next
  case False
  then have "filter (\<lambda>kv. fst kv \<noteq> k) es = es" by (auto simp: filter_id_conv)
  then show ?thesis using False by (simp add: ins_spec_def del_spec_def)
qed

lemma content_find:
  assumes c: "content t es"
  shows "find_op k t = Some (end_m t) \<longleftrightarrow> k \<notin> fst ` set es"
proof -
  from c obtain as e where inv: "tinv t as e" and es: "entries t as = es" by (rule contentE)
  show ?thesis
  proof (cases "k \<in> fst ` set es")
    case False
    then show ?thesis using find_op_absent[OF inv, of k] es by simp
  next
    case True
    then have "k \<in> fst ` set (entries t as)" using es by simp
    from tinv_present[OF inv this] obtain a where a: "a \<in> set as"
      "keyf (items t) a = Some k" by blast
    have ch: "chain t as e" using inv by (rule tinv_chain)
    then have "end_m t = Some e" "e \<notin> set as" by (auto simp: chain_def dllf_def)
    then show ?thesis using find_op_present[OF inv a] a(1) True by auto
  qed
qed

lemma content_find_pos:
  assumes c: "content t es"
  shows "\<exists>i<capacity_m t. find_pos t k = Some i"
proof -
  from c obtain as e where inv: "tinv t as e" and es: "entries t as = es" by (rule contentE)
  from inv have cap: "capacity_m t = length (storage t)" by (simp add: tinv_def wft_def slots_rel_def)
  show ?thesis
  proof (cases "k \<in> fst ` set (entries t as)")
    case False
    from tinv_find_absent[OF inv False] obtain z where "z < length (storage t)"
      "find_pos t k = Some z" by blast
    then show ?thesis using cap by auto
  next
    case True
    from tinv_present[OF inv True] obtain a where a: "a \<in> set as"
      "keyf (items t) a = Some k" by blast
    from tinv_find_present[OF inv a] obtain z where "z < length (storage t)"
      "find_pos t k = Some z" by blast
    then show ?thesis using cap by auto
  qed
qed

lemma content_empty_slot:
  assumes c: "content t es"
  shows "length (storage t) = capacity_m t \<and> (\<exists>i<capacity_m t. storage t ! i = None)"
proof -
  from c obtain as e where inv: "tinv t as e" by (rule contentE)
  from inv have w: "wft t as e (set as) {}" and r: "slots_rel t (set as)"
    and sz: "size_m t = card (set as)" by (auto simp: tinv_def wft_def)
  have "card (set as) < capacity_m t" using tinv_less[OF inv] sz by simp
  from wft_empty_slot[OF w this] slots_rel_cap[OF r] show ?thesis by auto
qed

lemma probe_holeD:
  "probe_hole n hf sk H \<Longrightarrow> i < n \<Longrightarrow> j < n \<Longrightarrow> sk i = Some k \<Longrightarrow>
   cdist n (hf k mod n) j < cdist n (hf k mod n) i \<Longrightarrow> j \<notin> H \<Longrightarrow> sk j \<noteq> None"
  unfolding probe_hole_def by blast

lemma wft_contiguous:
  assumes w: "wft t as e (set as) {}"
  shows "contiguous t"
proof -
  let ?n = "capacity_m t"
  from w have r: "slots_rel t (set as)"
    and ph: "probe_hole (capacity_m t) (hasher_m t) (slot_key t) {}"
    by (auto simp: wft_def)
  from slots_rel_cap[OF r] have cap: "length (storage t) = ?n" "0 < ?n" by auto
  have "probe_path_ok t i" if i: "i < ?n" for i
  proof (cases "storage t ! i")
    case None
    then show ?thesis by (simp add: probe_path_ok_def)
  next
    case (Some a)
    have "i < length (storage t)" using i cap by simp
    from slots_rel_slot[OF r this Some] have a: "a \<in> set as" by simp
    from wft_key[OF w a] obtain it kv where "items t a = Some it" "keyValue it = Some kv"
      "keyf (items t) a = Some (fst kv)" and k: "key_of t a = Some (fst kv)" by blast
    let ?k = "fst kv"
    let ?h = "hasher_m t ?k mod ?n"
    let ?d = "(i + ?n - ?h) mod ?n"
    have h: "?h < ?n" using cap(2) by simp
    have dn: "?d < ?n" using cap(2) by simp
    have sk: "slot_key t i = Some ?k" using Some k by (simp add: slot_key_def key_of_keyf)
    have di: "cdist ?n ?h i = ?d" using h i by (rule cdist_eq_mod)
    have occ: "storage t ! ((?h + m) mod ?n) \<noteq> None" if m: "m < ?d" for m
    proof -
      let ?j = "(?h + m) mod ?n"
      have mn: "m < ?n" using m dn by simp
      have j: "?j < ?n" using cap(2) by simp
      have "cdist ?n ?h ?j = m" using h mn by (rule cdist_mod)
      then have "cdist ?n ?h ?j < cdist ?n ?h i" using m di by simp
      from probe_holeD[OF ph i j sk this] have "slot_key t ?j \<noteq> None" by simp
      then show ?thesis by (cases "storage t ! ?j") (simp_all add: slot_key_def)
    qed
    have "list_all (\<lambda>m. storage t ! ((?h + m) mod ?n) \<noteq> None) [0 ..< ?d]"
      unfolding list_all_iff using occ by simp
    then show ?thesis by (simp add: probe_path_ok_def Let_def Some k)
  qed
  then have "list_all (probe_path_ok t) [0 ..< ?n]" unfolding list_all_iff by simp
  then show ?thesis unfolding contiguous_def using cap(1) by simp
qed

lemma content_contiguous:
  assumes c: "content t es"
  shows "contiguous t"
proof -
  from c obtain as e where "tinv t as e" by (rule contentE)
  then have "wft t as e (set as) {}" by (simp add: tinv_def)
  then show ?thesis by (rule wft_contiguous)
qed

lemma content_resize_contiguous:
  assumes c: "content t es" and n: "size_m t < n"
  shows "\<exists>t'. resize n t = Some t' \<and> contiguous t'"
proof -
  from c obtain as e where inv: "tinv t as e" by (rule contentE)
  from inv have ch: "chain t as e" and inj: "inj_on (keyf (items t)) (set as)"
    by (auto simp: tinv_def wft_def)
  have "length as < n" using n tinv_size[OF inv] by simp
  from resize_eff[OF ch inj this] obtain t' where t': "resize n t = Some t'"
    "wft t' as e (set as) {}" by blast
  from wft_contiguous[OF t'(2)] t'(1) show ?thesis by simp
qed

lemma in_cyclic_range_iff:
  assumes "i < n" "f < n" "t < n"
  shows "is_in_range i f t \<longleftrightarrow> in_cyclic_range n i f t"
proof -
  define D where "D = cdist n f t"
  have D: "(t + n - f) mod n = D" using assms by (simp add: D_def cdist_eq_mod)
  have "in_cyclic_range n i f t \<longleftrightarrow> (\<exists>m\<in>set [0..<Suc D]. i = (f + m) mod n)"
    unfolding in_cyclic_range_def list_ex_iff D ..
  also have "\<dots> \<longleftrightarrow> (\<exists>m\<le>D. i = (f + m) mod n)"
    unfolding set_upt by (auto simp: less_Suc_eq_le)
  also have "\<dots> \<longleftrightarrow> (\<exists>m\<le>cdist n f t. i = (f + m) mod n)" by (simp add: D_def)
  also have "\<dots> \<longleftrightarrow> cdist n f i \<le> cdist n f t"
  proof
    assume "\<exists>m\<le>cdist n f t. i = (f + m) mod n"
    then obtain m where m: "m \<le> cdist n f t" "i = (f + m) mod n" by blast
    have "m < n" using m(1) cdist_less[OF assms(2,3)] by simp
    from cdist_mod[OF assms(2) this] m show "cdist n f i \<le> cdist n f t" by simp
  next
    assume "cdist n f i \<le> cdist n f t"
    moreover have "i = (f + cdist n f i) mod n" using cdist_add[OF assms(2,1)] by simp
    ultimately show "\<exists>m\<le>cdist n f t. i = (f + m) mod n" by blast
  qed
  finally show ?thesis using is_in_range_cdist[OF assms] by simp
qed

lemma find_next_first_stop:
  assumes cap: "capacity_m t = length (storage t)" and ps: "ps < capacity_m t"
    and keys: "\<forall>i<capacity_m t. \<forall>a. storage t ! i = Some a \<longrightarrow> key_of t a \<noteq> None"
    and d: "d < capacity_m t"
    and stop: "scan_stops t ps ((ps + 1 + d) mod capacity_m t)"
    and cont: "\<forall>d'<d. \<not> scan_stops t ps ((ps + 1 + d') mod capacity_m t)"
  shows "find_next t ps = Some ((ps + 1 + d) mod capacity_m t)"
proof -
  let ?n = "length (storage t)"
  let ?s = "cnext ?n ps"
  let ?z = "(ps + 1 + d) mod ?n"
  have n: "0 < ?n" "ps < ?n" "d < ?n" using ps d cap by auto
  have s: "?s < ?n" using n(2) by (rule cnext_less)
  have z: "?z < ?n" using n by simp
  have se: "?s = (ps + 1) mod ?n" using n(2) by (rule cnext_eq_mod)
  have off: "\<And>m. (ps + 1 + m) mod ?n = (?s + m) mod ?n" by (simp add: se mod_add_left_eq)
  have dz: "cdist ?n ?s ?z = d" using cdist_mod[OF s n(3)] off[of d] by simp
  have ci: "cyclic_inc t ps = ?s" by (simp add: cyclic_inc_cnext cap)
  have stop': "storage t ! ?z = None \<or> (\<exists>k. slot_key t ?z = Some k \<and>
       \<not> is_in_range (hasher_m t k mod ?n) ?s ?z)"
    using stop unfolding scan_stops_def ci cap
    by (auto simp: slot_key_def key_of_keyf split: option.splits)
  have cont': "\<forall>j<?n. cdist ?n ?s j < cdist ?n ?s ?z \<longrightarrow>
       (\<exists>k. slot_key t j = Some k \<and> is_in_range (hasher_m t k mod ?n) ?s j)"
  proof (intro allI impI)
    fix j assume j: "j < ?n" "cdist ?n ?s j < cdist ?n ?s ?z"
    let ?d' = "cdist ?n ?s j"
    have d': "?d' < d" using j(2) dz by simp
    have "j = (?s + ?d') mod ?n" using cdist_add[OF s j(1)] by simp
    then have je: "j = (ps + 1 + ?d') mod ?n" using off[of ?d'] by simp
    from cont d' have "\<not> scan_stops t ps ((ps + 1 + ?d') mod capacity_m t)" by blast
    then have ns: "\<not> scan_stops t ps j" using je cap by simp
    then obtain a where a: "storage t ! j = Some a"
      unfolding scan_stops_def by (cases "storage t ! j") auto
    with keys j(1) cap obtain k where k: "key_of t a = Some k" by auto
    have "is_in_range (hasher_m t k mod ?n) ?s j"
      using ns a k unfolding scan_stops_def ci cap by simp
    moreover have "slot_key t j = Some k" using a k by (simp add: slot_key_def key_of_keyf)
    ultimately show "\<exists>k. slot_key t j = Some k \<and> is_in_range (hasher_m t k mod ?n) ?s j"
      by blast
  qed
  have "find_next_loop t ps ?s = Some ?z"
    using cap z s stop' cont' by (rule find_next_loop_stop)
  then show ?thesis by (simp add: find_next_def ci cap)
qed

lemma reachable_from_list_the: "reachable (the (HashMap_from_list kvs hasher))"
proof -
  from content_from_list[of kvs hasher] obtain t where t: "HashMap_from_list kvs hasher = Some t"
    by blast
  then have "reachable t" by (rule reachable.from_list)
  then show ?thesis using t by simp
qed

section \<open>The claims\<close>

text \<open>
  C1. Inserting the pairs of a sequence, in order, into a new table gives a table whose
  size is the number of distinct keys of the sequence and in which every key has the
  value of its first occurrence (\<open>map_of\<close> returns the first pair of a key); and
  \<^verbatim>\<open>insert\<close> on a table that already holds the key returns the table unchanged.
\<close>

theorem insert_first_occurrence_wins:
  "(\<exists>t. HashMap_from_list kvs hasher = Some t \<and> size_op t = card (fst ` set kvs)
      \<and> (\<forall>k. at k t = Some (case map_of kvs k of None \<Rightarrow> Inl OutOfRange | Some v \<Rightarrow> Inr v)))
   \<and> (reachable t0 \<longrightarrow> at k t0 = Some (Inr v) \<longrightarrow> insert_op (k, v') t0 = Some t0)"
proof (intro conjI impI)
  from content_from_list[of kvs hasher] obtain t where t: "HashMap_from_list kvs hasher = Some t"
    "content t (ins_all kvs [])" by blast
  have "size_op t = card (fst ` set kvs)"
    using content_size[OF t(2)] by (simp add: size_op_def ins_all_length)
  moreover have "\<forall>k. at k t = Some (case map_of kvs k of None \<Rightarrow> Inl OutOfRange | Some v \<Rightarrow> Inr v)"
    using content_at[OF t(2)] by (simp add: ins_all_map_of)
  ultimately show "\<exists>t. HashMap_from_list kvs hasher = Some t \<and> size_op t = card (fst ` set kvs)
      \<and> (\<forall>k. at k t = Some (case map_of kvs k of None \<Rightarrow> Inl OutOfRange | Some v \<Rightarrow> Inr v))"
    using t(1) by (intro exI[of _ t]) simp
next
  assume r: "reachable t0" and a: "at k t0 = Some (Inr v)"
  from reachable_content[OF r] obtain es where es: "content t0 es" by blast
  then obtain as e where inv: "tinv t0 as e" and en: "entries t0 as = es" by (rule contentE)
  have "map_of es k \<noteq> None" using content_at[OF es, of k] a by (auto split: option.splits)
  then have "k \<in> fst ` set (entries t0 as)" using en by (simp add: map_of_eq_None_iff)
  from insert_op_present[OF inv this] show "insert_op (k, v') t0 = Some t0" .
qed

text \<open>
  C2. Iteration over a reachable table yields a list of pairs with distinct keys; after any
  sequence of inserts and erases it yields the list that \<open>order_spec\<close> computes (a new
  key enters at the tail, an erased key leaves, an insert of a present key changes
  nothing); a key that is erased and inserted again is at the tail; and \<^verbatim>\<open>resize\<close> to
  any capacity above the size leaves the iteration, the links, the pairs and the
  allocated items as they were.
\<close>

theorem iteration_in_insertion_order:
  assumes "reachable t"
  shows "\<exists>es. to_list t = Some es \<and> distinct (map fst es)
     \<and> (\<forall>xs. \<exists>t'. run_actions xs t = Some t' \<and> to_list t' = Some (order_spec xs es))
     \<and> (\<forall>k v. \<exists>t1 t2. erase k t = Some t1 \<and> insert_op (k, v) t1 = Some t2
            \<and> to_list t2 = Some (del_spec k es @ [(k, v)]))
     \<and> (\<forall>n. size_m t < n \<longrightarrow>
            (\<exists>t'. resize n t = Some t' \<and> to_list t' = Some es \<and> same_items t t'))"
proof -
  from reachable_content[OF assms] obtain es where es: "content t es" by blast
  have 1: "\<forall>xs. \<exists>t'. run_actions xs t = Some t' \<and> to_list t' = Some (order_spec xs es)"
  proof
    fix xs
    from content_run[OF es, of xs] obtain t' where "run_actions xs t = Some t'"
      "content t' (order_spec xs es)" by blast
    then show "\<exists>t'. run_actions xs t = Some t' \<and> to_list t' = Some (order_spec xs es)"
      using content_to_list by blast
  qed
  have 2: "\<forall>k v. \<exists>t1 t2. erase k t = Some t1 \<and> insert_op (k, v) t1 = Some t2
            \<and> to_list t2 = Some (del_spec k es @ [(k, v)])"
  proof (intro allI)
    fix k v
    from content_erase[OF es, of k] obtain t1 where t1: "erase k t = Some t1"
      "content t1 (del_spec k es)" by blast
    from content_insert[OF t1(2), of "(k, v)"] obtain t2 where t2: "insert_op (k, v) t1 = Some t2"
      "content t2 (ins_spec (k, v) (del_spec k es))" by blast
    have "ins_spec (k, v) (del_spec k es) = del_spec k es @ [(k, v)]"
      by (auto simp: ins_spec_def del_spec_def)
    then have "to_list t2 = Some (del_spec k es @ [(k, v)])"
      using content_to_list[OF t2(2)] by simp
    then show "\<exists>t1 t2. erase k t = Some t1 \<and> insert_op (k, v) t1 = Some t2
            \<and> to_list t2 = Some (del_spec k es @ [(k, v)])"
      using t1(1) t2(1) by (intro exI[of _ t1] exI[of _ t2]) simp
  qed
  have 3: "\<forall>n. size_m t < n \<longrightarrow>
            (\<exists>t'. resize n t = Some t' \<and> to_list t' = Some es \<and> same_items t t')"
  proof (intro allI impI)
    fix n assume "size_m t < n"
    from content_resize[OF es this] obtain t' where "resize n t = Some t'"
      "to_list t' = Some es" "same_items t t'" by blast
    then show "\<exists>t'. resize n t = Some t' \<and> to_list t' = Some es \<and> same_items t t'"
      by (intro exI[of _ t']) simp
  qed
  show ?thesis using content_to_list[OF es] content_distinct[OF es] 1 2 3
    by (intro exI[of _ es]) simp
qed

text \<open>
  C3. On a reachable table, \<^verbatim>\<open>erase(k)\<close> right after \<^verbatim>\<open>insert((k, v))\<close> leaves
  \<^verbatim>\<open>find(k)\<close> equal to \<^verbatim>\<open>end()\<close>; the size is the size before the insert when the key was
  absent then, and one less when the key was present.
\<close>

theorem erase_after_insert:
  assumes "reachable t"
  shows "\<exists>t1 t2. insert_op (k, v) t = Some t1 \<and> erase k t1 = Some t2
     \<and> find_op k t2 = Some (end_m t2)
     \<and> size_op t2 = (if find_op k t = Some (end_m t) then size_op t else size_op t - 1)"
proof -
  from reachable_content[OF assms] obtain es where es: "content t es" by blast
  from content_insert[OF es, of "(k, v)"] obtain t1 where t1: "insert_op (k, v) t = Some t1"
    "content t1 (ins_spec (k, v) es)" by blast
  from content_erase[OF t1(2), of k] obtain t2 where t2: "erase k t1 = Some t2"
    "content t2 (del_spec k (ins_spec (k, v) es))" "find_op k t2 = Some (end_m t2)" by blast
  have "size_op t2 = (if k \<in> fst ` set es then length es - 1 else length es)"
    using content_size[OF t2(2)] del_ins_length[OF content_distinct[OF es], of k v]
    by (simp add: size_op_def)
  then have "size_op t2 = (if find_op k t = Some (end_m t) then size_op t else size_op t - 1)"
    using content_find[OF es, of k] content_size[OF es] by (simp add: size_op_def)
  then show ?thesis using t1(1) t2(1,3) by (intro exI[of _ t1] exI[of _ t2]) simp
qed

text \<open>
  C4. In a reachable table the capacity is a power of two and the load is below three
  quarters; an operation that changes the table doubles the capacity exactly when the
  count it leaves reaches three quarters of the capacity, and leaves the capacity as it
  was otherwise, and the load is below three quarters afterwards.
\<close>

theorem growth_policy:
  assumes "reachable t"
  shows "(\<exists>m. capacity_m t = 2 ^ m) \<and> size_op t * 4 < capacity_m t * 3
     \<and> (\<forall>t'. mutation t t' \<longrightarrow>
          capacity_m t' = (if size_op t' * 4 \<ge> capacity_m t * 3
                           then 2 * capacity_m t else capacity_m t)
          \<and> size_op t' * 4 < capacity_m t' * 3)"
proof -
  from reachable_content[OF assms] obtain es where es: "content t es" by blast
  note ld = content_load[OF es]
  have sz: "size_m t = length es" using es by (rule content_size)
  have ins: "capacity_m t' = (if size_op t' * 4 \<ge> capacity_m t * 3
                           then 2 * capacity_m t else capacity_m t)
          \<and> size_op t' * 4 < capacity_m t' * 3" if i: "insert_op kv t = Some t'" for kv t'
  proof -
    from content_insert[OF es, of kv] i have c': "content t' (ins_spec kv es)"
      and cap: "capacity_m t' = (if fst kv \<notin> fst ` set es \<and> (size_m t + 1) * 4 \<ge> capacity_m t * 3
                         then 2 * capacity_m t else capacity_m t)" by auto
    have "size_m t' = (if fst kv \<in> fst ` set es then size_m t else size_m t + 1)"
      using content_size[OF c'] sz by (simp add: ins_spec_def)
    then show ?thesis using cap ld content_load[OF c'] by (auto simp: size_op_def)
  qed
  have mut: "capacity_m t' = (if size_op t' * 4 \<ge> capacity_m t * 3
                           then 2 * capacity_m t else capacity_m t)
          \<and> size_op t' * 4 < capacity_m t' * 3" if m: "mutation t t'" for t'
    using m unfolding mutation_def
  proof (elim disjE exE)
    fix kv assume "insert_op kv t = Some t'"
    then show ?thesis by (rule ins)
  next
    fix k assume e: "erase k t = Some t'"
    from content_erase[OF es, of k] e have c': "content t' (del_spec k es)"
      and cap: "capacity_m t' = capacity_m t" by auto
    have "size_m t' \<le> size_m t" using content_size[OF c'] sz by (simp add: del_spec_def)
    then show ?thesis using cap ld by (simp add: size_op_def)
  next
    fix dflt k a assume x: "index_op dflt k t = Some (a, t')"
    from content_index[OF es, of dflt k] x have "insert_op (k, dflt) t = Some t'" by auto
    then show ?thesis by (rule ins)
  next
    assume c: "clear t = Some t'"
    from content_clear[OF es] c have c': "content t' []"
      and cap: "capacity_m t' = capacity_m t" by auto
    have "size_m t' = 0" using content_size[OF c'] by simp
    then show ?thesis using cap ld by (auto simp: size_op_def)
  qed
  have "size_op t * 4 < capacity_m t * 3" using ld by (simp add: size_op_def)
  then show ?thesis using ld mut by blast
qed

text \<open>
  C5. In a reachable table (after any sequence of the public operations) the slot array
  is contiguous: every slot between the home position of the key of an occupied slot
  and that slot is occupied. A \<^verbatim>\<open>resize\<close> of such a table to any capacity above its size
  returns a table that is contiguous as well.
\<close>

theorem probe_paths_contiguous:
  assumes "reachable t"
  shows "contiguous t
     \<and> (\<forall>n. size_m t < n \<longrightarrow> (\<exists>t'. resize n t = Some t' \<and> contiguous t'))"
proof -
  from reachable_content[OF assms] obtain es where es: "content t es" by blast
  then have "contiguous t" by (rule content_contiguous)
  then show ?thesis using content_resize_contiguous[OF es] by simp
qed

text \<open>
  C6. In a table whose occupied slots hold items with keys, \<^verbatim>\<open>find_next(pos)\<close> returns the
  first slot after \<open>pos\<close>, in cyclic order, at which the scan stops (the slot is empty, or
  the home position of its key is outside the cyclic range from \<open>pos + 1\<close> to the slot);
  and \<^verbatim>\<open>is_in_range\<close> is membership in the cyclic range, also when the range wraps around.
\<close>

theorem find_next_first:
  assumes "capacity_m t = length (storage t)" and "ps < capacity_m t"
    and "\<forall>i<capacity_m t. \<forall>a. storage t ! i = Some a \<longrightarrow> key_of t a \<noteq> None"
    and "d < capacity_m t"
    and "scan_stops t ps ((ps + 1 + d) mod capacity_m t)"
    and "\<forall>d'<d. \<not> scan_stops t ps ((ps + 1 + d') mod capacity_m t)"
  shows "find_next t ps = Some ((ps + 1 + d) mod capacity_m t)
     \<and> (\<forall>i<capacity_m t. \<forall>from<capacity_m t. \<forall>to<capacity_m t.
           is_in_range i from to = in_cyclic_range (capacity_m t) i from to)"
  using find_next_first_stop[OF assms] in_cyclic_range_iff by blast


text \<open>
  C8. In a reachable table the count is below the capacity, some slot of the array is
  empty, and \<^verbatim>\<open>find_pos\<close> returns a slot for every key.
\<close>

theorem find_pos_terminates:
  assumes "reachable t"
  shows "size_op t < capacity_m t \<and> length (storage t) = capacity_m t
     \<and> (\<exists>i<capacity_m t. storage t ! i = None)
     \<and> (\<forall>k. \<exists>i<capacity_m t. find_pos t k = Some i)"
proof -
  from reachable_content[OF assms] obtain es where es: "content t es" by blast
  have "size_op t < capacity_m t" using content_load[OF es] by (simp add: size_op_def)
  then show ?thesis using content_empty_slot[OF es] content_find_pos[OF es] by simp
qed

text \<open>
  C9. Assignment from another table gives the destination the pairs of the source in the
  source's iteration order, as clearing the destination and inserting the source's pairs
  in that order does; the destination keeps its own hasher, as it does under clearing and
  inserting; assignment of a table to itself changes nothing.
\<close>

theorem assignment_copies_in_order:
  assumes "reachable t" and "reachable ot" and "w this = Some t" and "w other = Some ot"
  shows "(other \<noteq> this \<longrightarrow>
      (\<exists>t' ts es. assign_op this other w = Some (w(this \<mapsto> t'))
         \<and> to_list ot = Some es \<and> to_list t' = Some es
         \<and> (clear t \<bind> insert_list es) = Some ts \<and> to_list ts = Some es
         \<and> size_op ts = size_op t' \<and> (\<forall>k. at k ts = at k t')
         \<and> hash_function t' = hash_function t \<and> hash_function ts = hash_function t))
   \<and> (other = this \<longrightarrow> assign_op this other w = Some w)"
proof (intro conjI impI)
  assume ne: "other \<noteq> this"
  from reachable_content[OF assms(1)] obtain es0 where es0: "content t es0" by blast
  from reachable_content[OF assms(2)] obtain es where es: "content ot es" by blast
  from content_assign[OF es es0] obtain t' where t': "assign_from ot t = Some t'"
    "content t' es" "hasher_m t' = hasher_m t" by blast
  from content_clear[OF es0] obtain t1 where t1: "clear t = Some t1" "content t1 []"
    "hasher_m t1 = hasher_m t" by blast
  from content_insert_list[OF t1(2), of es] obtain ts where ts: "insert_list es t1 = Some ts"
    "content ts (ins_all es [])" "hasher_m ts = hasher_m t1" by blast
  have "ins_all es [] = es" using ins_all_fresh[of "[]" es] content_distinct[OF es] by simp
  then have cs: "content ts es" using ts(2) by simp
  have 1: "assign_op this other w = Some (w(this \<mapsto> t'))"
    using ne assms(3,4) t'(1) by (simp add: assign_op_def)
  have 2: "(clear t \<bind> insert_list es) = Some ts" using t1(1) ts(1) by simp
  have 3: "size_op ts = size_op t'" using content_size[OF cs] content_size[OF t'(2)]
    by (simp add: size_op_def)
  have 4: "\<forall>k. at k ts = at k t'" using content_at[OF cs] content_at[OF t'(2)] by simp
  have 5: "hash_function t' = hash_function t" using t'(3) by (simp add: hash_function_def)
  have 6: "hash_function ts = hash_function t" using ts(3) t1(3) by (simp add: hash_function_def)
  show "\<exists>t' ts es. assign_op this other w = Some (w(this \<mapsto> t'))
         \<and> to_list ot = Some es \<and> to_list t' = Some es
         \<and> (clear t \<bind> insert_list es) = Some ts \<and> to_list ts = Some es
         \<and> size_op ts = size_op t' \<and> (\<forall>k. at k ts = at k t')
         \<and> hash_function t' = hash_function t \<and> hash_function ts = hash_function t"
    using 1 2 3 4 5 6 content_to_list[OF es] content_to_list[OF t'(2)] content_to_list[OF cs]
    by (intro exI[of _ t'] exI[of _ ts] exI[of _ es]) simp
next
  assume "other = this"
  then show "assign_op this other w = Some w" using assms(3) by (simp add: assign_op_def)
qed

text \<open>
  C10. The copy constructor gives the copy the hasher passed as its second argument
  (\<^verbatim>\<open>Hash()\<close> when the caller passes none), not the hasher of the source: the copy holds
  the pairs of the source in the same order, and its \<^verbatim>\<open>hash_function()\<close> differs from the
  source's whenever the source's differs from that argument.
\<close>

theorem copy_takes_given_hasher:
  assumes "reachable ot"
  shows "\<exists>t. HashMap_copy ot hasher = Some t \<and> hash_function t = hasher
     \<and> to_list t = to_list ot
     \<and> (hash_function ot \<noteq> hasher \<longrightarrow> hash_function t \<noteq> hash_function ot)"
proof -
  from reachable_content[OF assms] obtain es where es: "content ot es" by blast
  from content_copy[OF es, of hasher] obtain t where t: "HashMap_copy ot hasher = Some t"
    "content t es" "hasher_m t = hasher" by blast
  have "to_list t = to_list ot" using content_to_list[OF es] content_to_list[OF t(2)] by simp
  then show ?thesis using t(1,3) by (intro exI[of _ t]) (simp add: hash_function_def)
qed

lemma from_list_the:
  "HashMap_from_list kvs hasher = Some (the (HashMap_from_list kvs hasher))"
  "hasher_m (the (HashMap_from_list kvs hasher)) = hasher"
  using content_from_list[of kvs hasher] by auto

lemma reachable_slot_keys:
  assumes "reachable t"
  shows "capacity_m t = length (storage t)
     \<and> (\<forall>i<capacity_m t. \<forall>a. storage t ! i = Some a \<longrightarrow> key_of t a \<noteq> None)"
proof -
  from reachable_content[OF assms] obtain as e where inv: "tinv t as e"
    unfolding content_def by blast
  then have w: "wft t as e (set as) {}" and r: "slots_rel t (set as)"
    by (auto simp: tinv_def wft_def)
  from slots_rel_cap[OF r] have cap: "capacity_m t = length (storage t)" by simp
  have "key_of t a \<noteq> None" if "i < capacity_m t" "storage t ! i = Some a" for i a
  proof -
    from slots_rel_slot[OF r _ that(2)] that(1) cap have "a \<in> set as" by simp
    from wft_key[OF w this] obtain it kv where "items t a = Some it" "keyValue it = Some kv"
      "keyf (items t) a = Some (fst kv)" "key_of t a = Some (fst kv)" by blast
    then show ?thesis by simp
  qed
  then show ?thesis using cap by blast
qed

theorem insert_first_occurrence_wins_witness:
  "(\<exists>t. HashMap_from_list [(1::nat, ''a''), (2, ''b''), (1, ''c'')] id = Some t
      \<and> size_op t = 2 \<and> at 1 t = Some (Inr ''a'') \<and> at 2 t = Some (Inr ''b'')
      \<and> at 3 t = Some (Inl OutOfRange))
   \<and> reachable (the (HashMap_from_list [(1::nat, ''a'')] id))
   \<and> at 1 (the (HashMap_from_list [(1::nat, ''a'')] id)) = Some (Inr ''a'')
   \<and> insert_op (1, ''c'') (the (HashMap_from_list [(1::nat, ''a'')] id))
      = Some (the (HashMap_from_list [(1::nat, ''a'')] id))"
proof -
  let ?T0 = "the (HashMap_from_list [(1::nat, ''a'')] id)"
  have r: "reachable ?T0" by (rule reachable_from_list_the)
  from insert_first_occurrence_wins[of "[(1::nat, ''a'')]" id, THEN conjunct1] obtain t where
    t: "HashMap_from_list [(1::nat, ''a'')] id = Some t"
       "\<forall>k. at k t = Some (case map_of [(1::nat, ''a'')] k of None \<Rightarrow> Inl OutOfRange | Some v \<Rightarrow> Inr v)"
    by blast
  from t(2) have "at 1 t = Some (Inr ''a'')" by simp
  with t(1) have a: "at 1 ?T0 = Some (Inr ''a'')" by simp
  have c: "card (fst ` set [(1::nat, ''a''), (2, ''b''), (1, ''c'')]) = 2" by code_simp
  show ?thesis
    using insert_first_occurrence_wins[of "[(1::nat, ''a''), (2, ''b''), (1, ''c'')]" id ?T0 1 "''a''" "''c''"]
      r a c by auto
qed

theorem iteration_in_insertion_order_witness:
  "reachable (the (HashMap_from_list [(1::nat, ''a''), (2, ''b''), (3, ''c'')] id))
   \<and> to_list (the (HashMap_from_list [(1::nat, ''a''), (2, ''b''), (3, ''c'')] id))
       = Some [(1, ''a''), (2, ''b''), (3, ''c'')]
   \<and> (\<exists>t'. run_actions [Erase 2, Insert 2 ''z'']
           (the (HashMap_from_list [(1::nat, ''a''), (2, ''b''), (3, ''c'')] id)) = Some t'
         \<and> to_list t' = Some [(1, ''a''), (3, ''c''), (2, ''z'')])
   \<and> (\<exists>t'. resize 16 (the (HashMap_from_list [(1::nat, ''a''), (2, ''b''), (3, ''c'')] id)) = Some t'
         \<and> to_list t' = Some [(1, ''a''), (2, ''b''), (3, ''c'')])"
proof -
  let ?T = "the (HashMap_from_list [(1::nat, ''a''), (2, ''b''), (3, ''c'')] id)"
  have r: "reachable ?T" by (rule reachable_from_list_the)
  have l: "to_list ?T = Some [(1, ''a''), (2, ''b''), (3, ''c'')]" by code_simp
  have s: "size_m ?T < 16" by code_simp
  from iteration_in_insertion_order[OF r] l obtain es where
    es: "es = [(1, ''a''), (2, ''b''), (3, ''c'')]"
    and run: "\<forall>xs. \<exists>t'. run_actions xs ?T = Some t' \<and> to_list t' = Some (order_spec xs es)"
    and rs: "\<forall>n. size_m ?T < n \<longrightarrow> (\<exists>t'. resize n ?T = Some t' \<and> to_list t' = Some es \<and> same_items ?T t')"
    by auto
  from run obtain t' where t': "run_actions [Erase 2, Insert 2 ''z''] ?T = Some t'"
    "to_list t' = Some (order_spec [Erase 2, Insert 2 ''z''] es)" by blast
  have "order_spec [Erase 2, Insert 2 ''z''] es = [(1, ''a''), (3, ''c''), (2, ''z'')]"
    unfolding es by (simp add: ins_spec_def del_spec_def)
  with t' have 1: "\<exists>t'. run_actions [Erase 2, Insert 2 ''z''] ?T = Some t'
         \<and> to_list t' = Some [(1, ''a''), (3, ''c''), (2, ''z'')]" by auto
  from rs s es have 2: "\<exists>t'. resize 16 ?T = Some t' \<and> to_list t' = Some [(1, ''a''), (2, ''b''), (3, ''c'')]"
    by blast
  show ?thesis using r l 1 2 by simp
qed

theorem erase_after_insert_counterexample:
  "map_option size_op (HashMap_from_list [(1::nat, ''a'')] id) = Some 1
   \<and> map_option size_op
       (HashMap_from_list [(1::nat, ''a'')] id \<bind> insert_op (1, ''b'') \<bind> erase 1) = Some 0"
  by code_simp

theorem erase_after_insert_witness:
  "reachable (the (HashMap_from_list [(1::nat, ''a'')] id))
   \<and> (\<exists>t1 t2. insert_op (2, ''b'') (the (HashMap_from_list [(1::nat, ''a'')] id)) = Some t1
        \<and> erase 2 t1 = Some t2 \<and> find_op 2 t2 = Some (end_m t2) \<and> size_op t2 = 1)
   \<and> (\<exists>t1 t2. insert_op (1, ''b'') (the (HashMap_from_list [(1::nat, ''a'')] id)) = Some t1
        \<and> erase 1 t1 = Some t2 \<and> find_op 1 t2 = Some (end_m t2) \<and> size_op t2 = 0)"
proof -
  let ?T = "the (HashMap_from_list [(1::nat, ''a'')] id)"
  have r: "reachable ?T" by (rule reachable_from_list_the)
  have s: "size_op ?T = 1" by code_simp
  have f2: "find_op 2 ?T = Some (end_m ?T)" by code_simp
  have f1: "find_op 1 ?T \<noteq> Some (end_m ?T)" by code_simp
  show ?thesis
    using erase_after_insert[OF r, of 2 "''b''"] erase_after_insert[OF r, of 1 "''b''"] r s f1 f2
    by simp
qed

theorem growth_policy_witness:
  "reachable (the (HashMap_from_list [(1::nat, ''a''), (2, ''b'')] id))
   \<and> capacity_m (the (HashMap_from_list [(1::nat, ''a''), (2, ''b'')] id)) = 2 ^ 2
   \<and> size_op (the (HashMap_from_list [(1::nat, ''a''), (2, ''b'')] id)) * 4
       < capacity_m (the (HashMap_from_list [(1::nat, ''a''), (2, ''b'')] id)) * 3
   \<and> (\<exists>t'. insert_op (3, ''c'') (the (HashMap_from_list [(1::nat, ''a''), (2, ''b'')] id)) = Some t'
         \<and> size_op t' = 3 \<and> capacity_m t' = 8 \<and> size_op t' * 4 < capacity_m t' * 3)"
proof -
  let ?T = "the (HashMap_from_list [(1::nat, ''a''), (2, ''b'')] id)"
  have r: "reachable ?T" by (rule reachable_from_list_the)
  have c: "capacity_m ?T = 4" by code_simp
  have "map_option size_op (insert_op (3, ''c'') ?T) = Some 3" by code_simp
  then obtain t' where i: "insert_op (3, ''c'') ?T = Some t'" and s: "size_op t' = 3" by auto
  from i have m: "mutation ?T t'" unfolding mutation_def by blast
  from growth_policy[OF r] m c s
  have "capacity_m t' = 8 \<and> size_op t' * 4 < capacity_m t' * 3" by auto
  then show ?thesis using growth_policy[OF r] r c i s by (simp add: exI[of _ t'])
qed

theorem probe_paths_contiguous_witness:
  "reachable (the (HashMap_from_list [(1::nat, ''a''), (9, ''b''), (17, ''c''), (7, ''d''), (15, ''e'')] id))
   \<and> contiguous (the (HashMap_from_list [(1::nat, ''a''), (9, ''b''), (17, ''c''), (7, ''d''), (15, ''e'')] id))
   \<and> (\<exists>t'. resize 16 (the (HashMap_from_list [(1::nat, ''a''), (9, ''b''), (17, ''c''), (7, ''d''), (15, ''e'')] id))
          = Some t' \<and> contiguous t')"
proof -
  let ?T = "the (HashMap_from_list [(1::nat, ''a''), (9, ''b''), (17, ''c''), (7, ''d''), (15, ''e'')] id)"
  have r: "reachable ?T" by (rule reachable_from_list_the)
  have s: "size_m ?T < 16" by code_simp
  from probe_paths_contiguous[OF r] s r show ?thesis by blast
qed

theorem find_next_first_witness:
  "capacity_m (the (HashMap_from_list [(1::nat, ''a''), (9, ''b''), (17, ''c'')] id)) = 8
   \<and> scan_stops (the (HashMap_from_list [(1::nat, ''a''), (9, ''b''), (17, ''c'')] id)) 0 4
   \<and> find_next (the (HashMap_from_list [(1::nat, ''a''), (9, ''b''), (17, ''c'')] id)) 0 = Some 4
   \<and> is_in_range 0 6 1 = in_cyclic_range 8 0 6 1"
proof -
  let ?T = "the (HashMap_from_list [(1::nat, ''a''), (9, ''b''), (17, ''c'')] id)"
  have r: "reachable ?T" by (rule reachable_from_list_the)
  have c: "capacity_m ?T = 8" by code_simp
  have s: "scan_stops ?T 0 4" by code_simp
  have n0: "\<not> scan_stops ?T 0 ((0 + 1 + 0) mod capacity_m ?T)" by code_simp
  have n1: "\<not> scan_stops ?T 0 ((0 + 1 + 1) mod capacity_m ?T)" by code_simp
  have n2: "\<not> scan_stops ?T 0 ((0 + 1 + 2) mod capacity_m ?T)" by code_simp
  have cont: "\<forall>d'<3. \<not> scan_stops ?T 0 ((0 + 1 + d') mod capacity_m ?T)"
  proof (intro allI impI)
    fix d' :: nat assume "d' < 3"
    then consider "d' = 0" | "d' = 1" | "d' = 2" by linarith
    then show "\<not> scan_stops ?T 0 ((0 + 1 + d') mod capacity_m ?T)"
      using n0 n1 n2 by cases blast+
  qed
  have stop: "scan_stops ?T 0 ((0 + 1 + 3) mod capacity_m ?T)" using s c by simp
  from reachable_slot_keys[OF r] have k: "capacity_m ?T = length (storage ?T)"
    "\<forall>i<capacity_m ?T. \<forall>a. storage ?T ! i = Some a \<longrightarrow> key_of ?T a \<noteq> None" by auto
  from find_next_first[OF k(1) _ k(2) _ stop cont] c
  have "find_next ?T 0 = Some 4" "is_in_range 0 6 1 = in_cyclic_range 8 0 6 1" by auto
  then show ?thesis using c s by simp
qed


theorem find_pos_terminates_witness:
  "reachable (the (HashMap_from_list [(1::nat, ''a''), (9, ''b'')] id))
   \<and> size_op (the (HashMap_from_list [(1::nat, ''a''), (9, ''b'')] id))
       < capacity_m (the (HashMap_from_list [(1::nat, ''a''), (9, ''b'')] id))
   \<and> (\<exists>i<capacity_m (the (HashMap_from_list [(1::nat, ''a''), (9, ''b'')] id)).
         storage (the (HashMap_from_list [(1::nat, ''a''), (9, ''b'')] id)) ! i = None)
   \<and> (\<exists>i<capacity_m (the (HashMap_from_list [(1::nat, ''a''), (9, ''b'')] id)).
         find_pos (the (HashMap_from_list [(1::nat, ''a''), (9, ''b'')] id)) 17 = Some i)"
  using find_pos_terminates[OF reachable_from_list_the[of "[(1::nat, ''a''), (9, ''b'')]" id]]
    reachable_from_list_the[of "[(1::nat, ''a''), (9, ''b'')]" id]
  by blast

theorem assignment_copies_in_order_witness:
  "reachable (the (HashMap_from_list [(1::nat, ''a'')] (\<lambda>k. 7)))
   \<and> reachable (the (HashMap_from_list [(3::nat, ''c''), (2, ''b'')] id))
   \<and> (\<exists>t'. assign_op 0 1
          ((\<lambda>x. None)(0 \<mapsto> the (HashMap_from_list [(1::nat, ''a'')] (\<lambda>k. 7)),
                       1 \<mapsto> the (HashMap_from_list [(3::nat, ''c''), (2, ''b'')] id)))
        = Some (((\<lambda>x. None)(0 \<mapsto> the (HashMap_from_list [(1::nat, ''a'')] (\<lambda>k. 7)),
                       1 \<mapsto> the (HashMap_from_list [(3::nat, ''c''), (2, ''b'')] id)))(0 \<mapsto> t'))
        \<and> to_list t' = Some [(3, ''c''), (2, ''b'')]
        \<and> hash_function t' 1 = 7)
   \<and> hash_function (the (HashMap_from_list [(3::nat, ''c''), (2, ''b'')] id)) 1 = 1
   \<and> assign_op 0 0
          ((\<lambda>x. None)(0 \<mapsto> the (HashMap_from_list [(1::nat, ''a'')] (\<lambda>k. 7)),
                       1 \<mapsto> the (HashMap_from_list [(3::nat, ''c''), (2, ''b'')] id)))
        = Some ((\<lambda>x. None)(0 \<mapsto> the (HashMap_from_list [(1::nat, ''a'')] (\<lambda>k. 7)),
                       1 \<mapsto> the (HashMap_from_list [(3::nat, ''c''), (2, ''b'')] id)))"
proof -
  let ?T = "the (HashMap_from_list [(1::nat, ''a'')] (\<lambda>k. 7))"
  let ?O = "the (HashMap_from_list [(3::nat, ''c''), (2, ''b'')] id)"
  let ?W = "(\<lambda>x::nat. None)(0 \<mapsto> ?T, 1 \<mapsto> ?O)"
  have r: "reachable ?T" "reachable ?O" by (rule reachable_from_list_the)+
  have l: "to_list ?O = Some [(3, ''c''), (2, ''b'')]" by code_simp
  have h: "hash_function ?T 1 = 7" by (simp add: hash_function_def from_list_the(2))
  have ho: "hash_function ?O 1 = 1" by (simp add: hash_function_def from_list_the(2))
  have w: "?W 0 = Some ?T" "?W 1 = Some ?O" by simp_all
  have ne: "(1::nat) \<noteq> 0" by simp
  from assignment_copies_in_order[where this=0 and other=1 and w="?W" and t="?T" and ot="?O",
      OF r(1) r(2) w(1) w(2), THEN conjunct1, THEN mp, OF ne]
  obtain t' es where t': "assign_op 0 1 ?W = Some (?W(0 \<mapsto> t'))"
    "to_list ?O = Some es" "to_list t' = Some es" "hash_function t' = hash_function ?T" by blast
  from t'(2,3) l have "to_list t' = Some [(3, ''c''), (2, ''b'')]" by simp
  moreover from t'(4) h have "hash_function t' 1 = 7" by simp
  ultimately
  have 1: "\<exists>t'. assign_op 0 1 ?W = Some (?W(0 \<mapsto> t')) \<and> to_list t' = Some [(3, ''c''), (2, ''b'')]
      \<and> hash_function t' 1 = 7"
    using t'(1) by blast
  from assignment_copies_in_order[where this=0 and other=0 and w="?W" and t="?T" and ot="?T",
      OF r(1) r(1) w(1) w(1)]
  have 2: "assign_op 0 0 ?W = Some ?W" by simp
  show ?thesis using r 1 2 ho by blast
qed

theorem copy_takes_given_hasher_witness:
  "reachable (the (HashMap_from_list [(1::nat, ''a''), (2, ''b'')] (\<lambda>k. 7)))
   \<and> (\<exists>t. HashMap_copy (the (HashMap_from_list [(1::nat, ''a''), (2, ''b'')] (\<lambda>k. 7))) id = Some t
        \<and> hash_function t 1 = 1
        \<and> hash_function (the (HashMap_from_list [(1::nat, ''a''), (2, ''b'')] (\<lambda>k. 7))) 1 = 7
        \<and> to_list t = Some [(1, ''a''), (2, ''b'')])"
proof -
  let ?O = "the (HashMap_from_list [(1::nat, ''a''), (2, ''b'')] (\<lambda>k. 7))"
  have r: "reachable ?O" by (rule reachable_from_list_the)
  have h: "hash_function ?O 1 = 7" by (simp add: hash_function_def from_list_the(2))
  have l: "to_list ?O = Some [(1, ''a''), (2, ''b'')]" by code_simp
  from copy_takes_given_hasher[OF r, of id] obtain t where
    "HashMap_copy ?O id = Some t" "hash_function t = id" "to_list t = to_list ?O" by blast
  then show ?thesis using r h l by (intro conjI exI[of _ t]) simp_all
qed

end
